theory Spec2Isabelle
  imports Main
begin

section \<open>The size-splitting file hook for logrus (lfshook.go)\<close>

text \<open>
  The hook routes a log entry to a file (or to an \<open>io.Writer\<close>) chosen by the entry's
  level, and splits every file into segments: when the tracked length of the base file
  exceeds \<open>FdMaxSize\<close>, the file is renamed to a numbered backup \<open>path.N\<close> and a fresh
  base file is opened.

  The embedding is sequential: the three mutexes of the source (\<open>lock\<close>, \<open>flk\<close>, \<open>lk\<close>)
  serialise the calls and are not modelled. Go's \<open>int\<close> and \<open>int64\<close> are modelled as
  \<open>int\<close>: the counters of the source are file sizes and loop indices bounded by
  \<open>FdMaxLen\<close>, far from the 64-bit limits.
\<close>

subsection \<open>The operating system and the sinks\<close>

type_synonym path = string

datatype error = ErrOpen path | ErrNoSpace | ErrInvalid | ErrFormat | ErrWriter nat

text \<open>
  The world holds what the hook acts on. A file system of regular files: a directory
  entry maps a name to an inode, an inode has contents, and an open file descriptor is
  the inode it was opened on (so a descriptor follows its file through a rename).
  \<open>free\<close> is the space left on the device (\<open>None\<close>: unlimited); a write stores
  what fits and reports an error when it is short. The \<open>deny_*\<close> predicates are the
  failures the environment imposes on the calls (permissions, a missing directory).
  \<open>sinks\<close> are the contents received by the \<open>io.Writer\<close>s, \<open>sink_fail\<close> says which
  of them fail, and \<open>stderr\<close> collects what \<open>log.Println\<close> prints.
\<close>

record world =
  names :: "path \<rightharpoonup> nat"
  data :: "nat \<Rightarrow> string"
  fresh :: nat
  free :: "nat option"
  deny_open :: "path \<Rightarrow> bool"
  deny_stat :: "path \<Rightarrow> bool"
  deny_rename :: "path \<Rightarrow> bool"
  deny_remove :: "path \<Rightarrow> bool"
  sinks :: "nat \<Rightarrow> string"
  sink_fail :: "nat \<Rightarrow> bool"
  stderr :: "error list"

datatype stat_result = StatOk nat | StatNotExist | StatErr

text \<open>\<open>os.Stat\<close>: the size of the file, or an error; \<open>os.IsNotExist\<close> holds of \<open>StatNotExist\<close> only.\<close>

definition os_Stat :: "world \<Rightarrow> path \<Rightarrow> stat_result" where
  "os_Stat s p =
     (if deny_stat s p then StatErr
      else case names s p of None \<Rightarrow> StatNotExist | Some i \<Rightarrow> StatOk (length (data s i)))"

text \<open>\<open>os.OpenFile(p, O_CREATE|O_APPEND|O_RDWR, 0664)\<close>: opens the file, creating it empty when absent.\<close>

definition os_OpenFile :: "world \<Rightarrow> path \<Rightarrow> (error + nat) \<times> world" where
  "os_OpenFile s p =
     (if deny_open s p then (Inl (ErrOpen p), s)
      else case names s p of
             Some i \<Rightarrow> (Inr i, s)
           | None \<Rightarrow> (Inr (fresh s),
                      s\<lparr>names := (names s)(p \<mapsto> fresh s),
                        data := (data s)(fresh s := []),
                        fresh := Suc (fresh s)\<rparr>))"

text \<open>\<open>os.Rename(src, dst)\<close>: fails when the source is absent or the environment refuses.\<close>

definition os_Rename :: "world \<Rightarrow> path \<Rightarrow> path \<Rightarrow> bool \<times> world" where
  "os_Rename s src dst =
     (if deny_rename s src then (False, s)
      else case names s src of
             None \<Rightarrow> (False, s)
           | Some i \<Rightarrow> (True, if src = dst then s
                              else s\<lparr>names := (names s)(dst \<mapsto> i, src := None)\<rparr>))"

text \<open>\<open>os.RemoveAll(p)\<close> on a regular file; removing an absent name succeeds.\<close>

definition os_RemoveAll :: "world \<Rightarrow> path \<Rightarrow> world" where
  "os_RemoveAll s p = (if deny_remove s p then s else s\<lparr>names := (names s)(p := None)\<rparr>)"

text \<open>
  \<open>(*os.File).Write\<close> on a descriptor opened with \<open>O_APPEND\<close>: appends what fits and
  returns the number of bytes written, with an error when that is fewer than requested.
\<close>

definition fd_Write :: "world \<Rightarrow> nat \<Rightarrow> string \<Rightarrow> nat \<times> error option \<times> world" where
  "fd_Write s i msg =
     (let n = (case free s of None \<Rightarrow> length msg | Some k \<Rightarrow> min k (length msg))
      in (n,
          if n < length msg then Some ErrNoSpace else None,
          s\<lparr>data := (data s)(i := data s i @ take n msg),
            free := map_option (\<lambda>k. k - n) (free s)\<rparr>))"

text \<open>\<open>io.Writer.Write\<close> of the sink numbered \<open>w\<close>.\<close>

definition writer_Write :: "world \<Rightarrow> nat \<Rightarrow> string \<Rightarrow> error option \<times> world" where
  "writer_Write s w msg =
     (if sink_fail s w then (Some (ErrWriter w), s)
      else (None, s\<lparr>sinks := (sinks s)(w := sinks s w @ msg)\<rparr>))"

definition log_Println :: "world \<Rightarrow> error \<Rightarrow> world" where
  "log_Println s e = s\<lparr>stderr := stderr s @ [e]\<rparr>"

subsection \<open>Backup names: \<open>fmt.Sprintf("%s.%d", path, i)\<close>\<close>

definition digit_char :: "nat \<Rightarrow> char" where
  "digit_char d = char_of (48 + d)"

function decimal :: "nat \<Rightarrow> string" where
  "decimal n = (if n < 10 then [digit_char n] else decimal (n div 10) @ [digit_char (n mod 10)])"
  by pat_completeness auto
termination
  by (relation "measure id") auto

declare decimal.simps [simp del]

definition itoa :: "int \<Rightarrow> string" where
  "itoa i = (if i < 0 then CHR ''-'' # decimal (nat (- i)) else decimal (nat i))"

definition bak :: "path \<Rightarrow> int \<Rightarrow> path" where
  "bak p i = p @ ''.'' @ itoa i"

subsection \<open>The hook\<close>

datatype level = PanicLevel | FatalLevel | ErrorLevel | WarnLevel | InfoLevel | DebugLevel | TraceLevel

record entry =
  Level :: level
  Message :: string

text \<open>
  A \<open>logrus.Formatter\<close>. The rendering itself is logrus's, so a formatter carries it:
  a \<open>*logrus.TextFormatter\<close> has its \<open>DisableColors\<close> flag and a rendering that depends
  on the flag; any other formatter is its \<open>Format\<close> method.
\<close>

datatype formatter =
    TextFormatter bool "bool \<Rightarrow> entry \<Rightarrow> error + string"
  | OtherFormatter "entry \<Rightarrow> error + string"

fun Format :: "formatter \<Rightarrow> entry \<Rightarrow> error + string" where
  "Format (TextFormatter dc r) e = r dc e"
| "Format (OtherFormatter f) e = f e"

text \<open>\<open>lfsFile\<close>: the descriptor (\<open>None\<close> is \<open>nil\<close>), the path and the tracked length.\<close>

record lfsFile =
  fd :: "nat option"
  path :: path
  ln :: int

text \<open>
  \<open>LfsHook\<close>. A Go map may be \<open>nil\<close> (\<open>None\<close>), which differs from an empty map in the
  test \<open>hook.writers != nil\<close>; an \<open>io.Writer\<close> value may be the \<open>nil\<close> interface.
\<close>

record LfsHook =
  paths :: "(level \<rightharpoonup> path) option"
  writers :: "(level \<rightharpoonup> nat option) option"
  levels :: "level list"
  formatter :: formatter
  defaultPath :: path
  defaultWriter :: "nat option"
  hasDefaultPath :: bool
  hasDefaultWriter :: bool
  FdMaxLen :: int
  FdMaxSize :: int
  fls :: "level \<rightharpoonup> lfsFile"

text \<open>Indexing a Go map that may be \<open>nil\<close>: a \<open>nil\<close> map has no entry.\<close>

definition map_get :: "('k \<rightharpoonup> 'v) option \<Rightarrow> 'k \<Rightarrow> 'v option" where
  "map_get m k = (case m of None \<Rightarrow> None | Some f \<Rightarrow> f k)"

text \<open>What a call does: it returns, or it panics.\<close>

datatype 'a outcome = Return 'a | Panic

text \<open>The \<open>output interface{}\<close> argument of the constructor, by its dynamic type.\<close>

datatype hook_output =
    OutString path
  | OutWriter nat
  | OutPathMap "(level \<rightharpoonup> path) option"
  | OutWriterMap "(level \<rightharpoonup> nat option) option"
  | OutOther

definition AllLevels :: "level list" where
  "AllLevels = [PanicLevel, FatalLevel, ErrorLevel, WarnLevel, InfoLevel, DebugLevel, TraceLevel]"

definition SetFormatter :: "formatter \<Rightarrow> LfsHook \<Rightarrow> formatter option \<Rightarrow> LfsHook" where
  "SetFormatter defaultFormatter hook fm =
     (case fm of
        None \<Rightarrow> hook\<lparr>formatter := defaultFormatter\<rparr>
      | Some (TextFormatter dc r) \<Rightarrow> hook\<lparr>formatter := TextFormatter True r\<rparr>
      | Some (OtherFormatter f) \<Rightarrow> hook\<lparr>formatter := OtherFormatter f\<rparr>)"

definition SetDefaultPath :: "LfsHook \<Rightarrow> path \<Rightarrow> LfsHook" where
  "SetDefaultPath hook p = hook\<lparr>defaultPath := p, hasDefaultPath := True\<rparr>"

definition SetDefaultWriter :: "LfsHook \<Rightarrow> nat option \<Rightarrow> LfsHook" where
  "SetDefaultWriter hook w = hook\<lparr>defaultWriter := w, hasDefaultWriter := True\<rparr>"

text \<open>
  The keys of a map, for \<open>hook.levels\<close>. Go ranges over a map in an unspecified order;
  the field is never read (\<open>Levels()\<close> returns \<open>logrus.AllLevels\<close>).
\<close>

definition keys_of :: "(level \<rightharpoonup> 'a) option \<Rightarrow> level list" where
  "keys_of m = (case m of None \<Rightarrow> [] | Some f \<Rightarrow> filter (\<lambda>l. f l \<noteq> None) AllLevels)"

definition NewLfsHook ::
  "formatter \<Rightarrow> hook_output \<Rightarrow> formatter option \<Rightarrow> int list \<Rightarrow> LfsHook outcome" where
  "NewLfsHook defaultFormatter out fm maxsz =
     (let hook = \<lparr>paths = None, writers = None, levels = [], formatter = defaultFormatter,
                  defaultPath = [], defaultWriter = None,
                  hasDefaultPath = False, hasDefaultWriter = False,
                  FdMaxLen = 10, FdMaxSize = 1024 * 1024 * 10, fls = Map.empty\<rparr>;
          hook = (if length maxsz > 0 \<and> maxsz ! 0 > 0 then hook\<lparr>FdMaxSize := maxsz ! 0\<rparr> else hook);
          hook = (if length maxsz > 1 \<and> maxsz ! 1 > 0 then hook\<lparr>FdMaxLen := maxsz ! 1\<rparr> else hook);
          hook = SetFormatter defaultFormatter hook fm
      in case out of
           OutString p \<Rightarrow> Return (SetDefaultPath hook p)
         | OutWriter w \<Rightarrow> Return (SetDefaultWriter hook (Some w))
         | OutPathMap m \<Rightarrow> Return (hook\<lparr>paths := m, levels := levels hook @ keys_of m\<rparr>)
         | OutWriterMap m \<Rightarrow> Return (hook\<lparr>writers := m, levels := levels hook @ keys_of m\<rparr>)
         | OutOther \<Rightarrow> Panic)"

subsection \<open>Writing to an \<open>io.Writer\<close>\<close>

definition ioWrite :: "LfsHook \<Rightarrow> entry \<Rightarrow> world \<Rightarrow> error option outcome \<times> world" where
  "ioWrite hook e s =
     (case map_get (writers hook) (Level e) of
        None \<Rightarrow>
          if hasDefaultWriter hook then
            (case Format (formatter hook) e of
               Inl err \<Rightarrow> (Return (Some err), log_Println s err)
             | Inr msg \<Rightarrow>
                 (case defaultWriter hook of
                    None \<Rightarrow> (Panic, s)
                  | Some w \<Rightarrow> (case writer_Write s w msg of (r, s') \<Rightarrow> (Return r, s'))))
          else (Return None, s)
      | Some writer \<Rightarrow>
          (case Format (formatter hook) e of
             Inl err \<Rightarrow> (Return (Some err), log_Println s err)
           | Inr msg \<Rightarrow>
               (case writer of
                  None \<Rightarrow> (Panic, s)
                | Some w \<Rightarrow> (case writer_Write s w msg of (r, s') \<Rightarrow> (Return r, s')))))"

subsection \<open>The backup chain\<close>

text \<open>\<open>fileBakLen\<close>: the number of consecutive backups \<open>path.1, path.2, ...\<close> up to \<open>FdMaxLen\<close>.\<close>

function fileBakLen_loop :: "int \<Rightarrow> world \<Rightarrow> path \<Rightarrow> int \<Rightarrow> int \<Rightarrow> int" where
  "fileBakLen_loop m s p i n =
     (if i \<le> m then
        (if os_Stat s (bak p i) \<noteq> StatNotExist then fileBakLen_loop m s p (i + 1) (n + 1)
         else n)
      else n)"
  by pat_completeness auto
termination
  by (relation "measure (\<lambda>(m, s, p, i, n). nat (m + 1 - i))") auto

declare fileBakLen_loop.simps [simp del]

definition fileBakLen :: "LfsHook \<Rightarrow> world \<Rightarrow> path \<Rightarrow> int" where
  "fileBakLen c s p = fileBakLen_loop (FdMaxLen c) s p 1 0"

text \<open>\<open>fileBakMove\<close>: removes \<open>path.1\<close> and renames \<open>path.(i+1)\<close> to \<open>path.i\<close>, in increasing \<open>i\<close>.\<close>

function fileBakMove_loop :: "int \<Rightarrow> world \<Rightarrow> path \<Rightarrow> int \<Rightarrow> world" where
  "fileBakMove_loop m s p i =
     (if i < m then fileBakMove_loop m (snd (os_Rename s (bak p (i + 1)) (bak p i))) p (i + 1)
      else s)"
  by pat_completeness auto
termination
  by (relation "measure (\<lambda>(m, s, p, i). nat (m - i))") auto

declare fileBakMove_loop.simps [simp del]

definition fileBakMove :: "LfsHook \<Rightarrow> world \<Rightarrow> path \<Rightarrow> world" where
  "fileBakMove c s p = fileBakMove_loop (FdMaxLen c) (os_RemoveAll s (bak p 1)) p 1"

text \<open>
  The roll-over of \<open>fileCheck\<close> (the statements after \<open>fe.fd = nil\<close> in its second
  branch): the base file goes to the end of the chain, after the chain has moved down
  when it is full. The results of the renames are discarded, as in the source.
\<close>

definition rollOver :: "LfsHook \<Rightarrow> world \<Rightarrow> path \<Rightarrow> world" where
  "rollOver c s p =
     (let n = fileBakLen c s p
      in if n \<ge> FdMaxLen c then snd (os_Rename (fileBakMove c s p) p (bak p n))
         else snd (os_Rename s p (bak p (n + 1))))"

subsection \<open>\<open>fileCheck\<close>: ensure-open, threshold check, roll-over\<close>

text \<open>
  The \<open>for\<close> loop of \<open>fileCheck\<close> has no bound, so the function is partial: \<open>None\<close> is
  a call that never returns. A call that returns gives the error (or \<open>nil\<close>), the handle
  and the world. Closing the descriptor changes nothing in the world.
\<close>

partial_function (option) fileCheck ::
  "LfsHook \<Rightarrow> lfsFile \<Rightarrow> world \<Rightarrow> (error option \<times> lfsFile \<times> world) option" where
  "fileCheck c fe s =
     (if fd fe = None then
        (let fe1 = fe\<lparr>ln := 0\<rparr>;
             fe2 = (case os_Stat s (path fe) of StatOk sz \<Rightarrow> fe1\<lparr>ln := int sz\<rparr> | _ \<Rightarrow> fe1)
         in case os_OpenFile s (path fe) of
              (Inl err, s') \<Rightarrow> Some (Some err, fe2, s')
            | (Inr fl, s') \<Rightarrow> fileCheck c (fe2\<lparr>fd := Some fl\<rparr>) s')
      else if ln fe > FdMaxSize c then
        (let fe1 = fe\<lparr>fd := None\<rparr>
         in fileCheck c fe1 (rollOver c s (path fe)))
      else Some (None, fe, s))"

subsection \<open>Writing to a file\<close>

text \<open>
  \<open>os.MkdirAll(filepath.Dir(path), 0755)\<close>: its result is discarded, and directories are
  not part of the world; whether the directory is there shows in \<open>deny_open\<close>.
\<close>

definition os_MkdirAll_Dir :: "world \<Rightarrow> path \<Rightarrow> world" where
  "os_MkdirAll_Dir s p = s"

text \<open>
  The path of a level (the lookup at the start of \<open>fileWrite\<close>): its entry in
  \<open>paths\<close>, else the default path when one is set.
\<close>

definition resolvePath :: "LfsHook \<Rightarrow> level \<Rightarrow> path option" where
  "resolvePath hook l =
     (case map_get (paths hook) l of
        Some p \<Rightarrow> Some p
      | None \<Rightarrow> if hasDefaultPath hook then Some (defaultPath hook) else None)"

text \<open>
  The rest of \<open>fileWrite\<close>, from the call of \<open>fileCheck\<close> on. The handle is a pointer
  held in \<open>hook.fls\<close> only, so the changes \<open>fileCheck\<close> and the write make to it are
  stored back under its level. The error of the write is discarded (\<open>n, _ :=\<close>), and
  \<open>Write\<close> on a \<open>nil\<close> descriptor returns \<open>ErrInvalid\<close> with no byte written.
\<close>

definition fileWrite_checked ::
  "LfsHook \<Rightarrow> entry \<Rightarrow> lfsFile \<Rightarrow> world \<Rightarrow> (error option outcome \<times> LfsHook \<times> world) option" where
  "fileWrite_checked hook e fe s =
     (case fileCheck hook fe s of
        None \<Rightarrow> None
      | Some (Some err, fe1, s1) \<Rightarrow>
          Some (Return (Some err), hook\<lparr>fls := (fls hook)(Level e \<mapsto> fe1)\<rparr>, s1)
      | Some (None, fe1, s1) \<Rightarrow>
          (case Format (formatter hook) e of
             Inl err \<Rightarrow>
               Some (Return (Some err), hook\<lparr>fls := (fls hook)(Level e \<mapsto> fe1)\<rparr>,
                     log_Println s1 err)
           | Inr msg \<Rightarrow>
               (case (case fd fe1 of
                        None \<Rightarrow> (0, Some ErrInvalid, s1)
                      | Some i \<Rightarrow> fd_Write s1 i msg) of
                  (n, _, s2) \<Rightarrow>
                    Some (Return None,
                          hook\<lparr>fls := (fls hook)(Level e \<mapsto> fe1\<lparr>ln := ln fe1 + int n\<rparr>)\<rparr>,
                          s2))))"

text \<open>\<open>fileWrite\<close>: the handle of the level, created closed on the first write.\<close>

definition fileWrite ::
  "LfsHook \<Rightarrow> entry \<Rightarrow> world \<Rightarrow> (error option outcome \<times> LfsHook \<times> world) option" where
  "fileWrite hook e s =
     (case fls hook (Level e) of
        Some fe \<Rightarrow> fileWrite_checked hook e fe s
      | None \<Rightarrow>
          (case resolvePath hook (Level e) of
             None \<Rightarrow> Some (Return None, hook, s)
           | Some p \<Rightarrow>
               (let s0 = os_MkdirAll_Dir s p;
                    fe = \<lparr>fd = None, path = p, ln = 0\<rparr>
                in fileWrite_checked (hook\<lparr>fls := (fls hook)(Level e \<mapsto> fe)\<rparr>) e fe s0)))"

subsection \<open>\<open>Fire\<close>\<close>

definition Fire ::
  "LfsHook \<Rightarrow> entry \<Rightarrow> world \<Rightarrow> (error option outcome \<times> LfsHook \<times> world) option" where
  "Fire hook e s =
     (if writers hook \<noteq> None \<or> hasDefaultWriter hook then
        (case ioWrite hook e s of (r, s') \<Rightarrow> Some (r, hook, s'))
      else if paths hook \<noteq> None \<or> hasDefaultPath hook then fileWrite hook e s
      else Some (Return None, hook, s))"

text \<open>\<open>Levels\<close>: the hook asks for the records of every level.\<close>

definition Levels :: "LfsHook \<Rightarrow> level list" where
  "Levels hook = AllLevels"

section \<open>Vocabulary of the properties\<close>

text \<open>
  \<open>Fire\<close> writes to the sinks as soon as a writer map or a default writer is set;
  this is its first test.
\<close>

definition sinkMode :: "LfsHook \<Rightarrow> bool" where
  "sinkMode hook = (writers hook \<noteq> None \<or> hasDefaultWriter hook)"

text \<open>The second test of \<open>Fire\<close>: a path map or a default path is set.\<close>

definition pathConfigured :: "LfsHook \<Rightarrow> bool" where
  "pathConfigured hook = (paths hook \<noteq> None \<or> hasDefaultPath hook)"

text \<open>
  The registry \<open>fls\<close> holds a handle only for a level that resolves to a path. The
  constructor establishes this and every operation of the hook keeps it.
\<close>

definition registry_ok :: "LfsHook \<Rightarrow> bool" where
  "registry_ok hook =
     (\<forall>l. fls hook l \<noteq> None \<longrightarrow> resolvePath hook l \<noteq> None)"

text \<open>
  The tracked length that ensure-open sets on a closed handle (the first statements of
  the first branch of \<open>fileCheck\<close>): the size \<open>os.Stat\<close> reports, or 0 when it fails.
\<close>

definition startLen :: "world \<Rightarrow> path \<Rightarrow> int" where
  "startLen s p = (case os_Stat s p of StatOk sz \<Rightarrow> int sz | _ \<Rightarrow> 0)"

text \<open>
  The handle \<open>fileWrite\<close> works on for a level: the one in the registry, or a new
  closed one on the path the level resolves to.
\<close>

definition handleOf :: "LfsHook \<Rightarrow> level \<Rightarrow> lfsFile option" where
  "handleOf hook l =
     (case fls hook l of
        Some fe \<Rightarrow> Some fe
      | None \<Rightarrow> map_option (\<lambda>p. \<lparr>fd = None, path = p, ln = 0\<rparr>) (resolvePath hook l))"


text \<open>A sequence of calls of \<open>Fire\<close>, one entry after the other, whatever each returns.\<close>

fun Fire_all :: "LfsHook \<Rightarrow> entry list \<Rightarrow> world \<Rightarrow> (LfsHook \<times> world) option" where
  "Fire_all hook [] s = Some (hook, s)"
| "Fire_all hook (e # es) s =
     (case Fire hook e s of None \<Rightarrow> None | Some (r, hook', s') \<Rightarrow> Fire_all hook' es s')"

text \<open>
  The tracked length of an open handle is the length of the file it is open on; for the
  handle of a level in the registry.
\<close>

definition tracked_fe :: "lfsFile \<Rightarrow> world \<Rightarrow> bool" where
  "tracked_fe fe s = (case fd fe of None \<Rightarrow> True | Some i \<Rightarrow> ln fe = int (length (data s i)))"

definition tracked :: "LfsHook \<Rightarrow> level \<Rightarrow> world \<Rightarrow> bool" where
  "tracked hook l s = (case fls hook l of None \<Rightarrow> True | Some fe \<Rightarrow> tracked_fe fe s)"

text \<open>Reading a decimal numeral back, to tell backup names apart.\<close>

definition undecimal :: "string \<Rightarrow> nat" where
  "undecimal cs = foldl (\<lambda>a c. 10 * a + (of_char c - 48)) 0 cs"

text \<open>A world where no call is refused and the device has room.\<close>

definition healthy :: "world \<Rightarrow> bool" where
  "healthy s = ((\<forall>q. \<not> deny_open s q) \<and> (\<forall>q. \<not> deny_stat s q) \<and> (\<forall>q. \<not> deny_rename s q)
                \<and> (\<forall>q. \<not> deny_remove s q) \<and> free s = None)"

text \<open>Every name leads to an inode already handed out.\<close>

definition wf_world :: "world \<Rightarrow> bool" where
  "wf_world s = (\<forall>q i. names s q = Some i \<longrightarrow> i < fresh s)"

text \<open>The contents of the file of a name.\<close>

definition content :: "world \<Rightarrow> path \<Rightarrow> string option" where
  "content s q = map_option (data s) (names s q)"

text \<open>
  The backups of \<open>p\<close> are \<open>p.1, ..., p.k\<close> for \<open>k \<le> m\<close>, with the contents
  \<open>ys\<close> in this order, and no other suffix exists.
\<close>

definition chain :: "int \<Rightarrow> world \<Rightarrow> path \<Rightarrow> string list \<Rightarrow> bool" where
  "chain m s p ys \<longleftrightarrow>
     int (length ys) \<le> m \<and>
     (\<forall>j. content s (bak p j) = (if 1 \<le> j \<and> j \<le> int (length ys) then Some (ys ! nat (j - 1)) else None))"

text \<open>The last \<open>m\<close> elements of a list.\<close>

definition lastn :: "int \<Rightarrow> 'a list \<Rightarrow> 'a list" where
  "lastn m zs = drop (length zs - nat m) zs"

text \<open>
  A sequence of rotations of \<open>p\<close>: for each content in turn, the base file is
  created with this content (opened and written as \<open>fileCheck\<close> and \<open>fileWrite\<close>
  do) and rolled over.
\<close>

definition put_base :: "world \<Rightarrow> path \<Rightarrow> string \<Rightarrow> world" where
  "put_base s p x =
     (case os_OpenFile s p of
        (Inr i, s1) \<Rightarrow> snd (snd (fd_Write s1 i x))
      | (Inl err, s1) \<Rightarrow> s1)"

fun rotations :: "LfsHook \<Rightarrow> path \<Rightarrow> string list \<Rightarrow> world \<Rightarrow> world" where
  "rotations c p [] s = s"
| "rotations c p (x # xs) s = rotations c p xs (rollOver c (put_base s p x) p)"

text \<open>
  The length the threshold test of \<open>fileCheck\<close> works on in a call: the tracked
  length of a handle that is open, and for a closed handle the length ensure-open has
  just set, whatever the handle held before.
\<close>

definition checkLen :: "lfsFile \<Rightarrow> world \<Rightarrow> int" where
  "checkLen fe s = (if fd fe = None then startLen s (path fe) else ln fe)"

text \<open>The handle is open on \<open>i\<close> in \<open>s1\<close>: it was open, or ensure-open opens it.\<close>

definition openedOn :: "lfsFile \<Rightarrow> world \<Rightarrow> nat \<Rightarrow> world \<Rightarrow> bool" where
  "openedOn fe s i s1 =
     (case fd fe of
        Some j \<Rightarrow> i = j \<and> s1 = s
      | None \<Rightarrow> os_OpenFile s (path fe) = (Inr i, s1))"

text \<open>
  A call of \<open>fileCheck\<close> runs ensure-open when the handle is closed or over the limit;
  otherwise it leaves the handle as it is.
\<close>

definition reopens :: "LfsHook \<Rightarrow> lfsFile \<Rightarrow> bool" where
  "reopens c fe = (fd fe = None \<or> FdMaxSize c < ln fe)"

text \<open>
  The length found at the last ensure-open of a call: the size \<open>os.Stat\<close> reports for
  the path in the world \<open>fileCheck\<close> returns in, which is the size it reported just
  before the last open (an open of an existing file changes nothing, and a file it creates
  is empty).
\<close>

definition foundLen :: "LfsHook \<Rightarrow> lfsFile \<Rightarrow> world \<Rightarrow> int" where
  "foundLen c fe s =
     (case fileCheck c fe s of None \<Rightarrow> 0 | Some (r, fe1, s1) \<Rightarrow> startLen s1 (path fe))"

text \<open>
  The number of bytes the write of a call stores: what \<open>Write\<close> returns for the
  formatted entry, which is as many bytes as fit on the device; 0 when the formatter fails
  or the call returns an error, since then it does not reach the write.
\<close>

definition stored :: "LfsHook \<Rightarrow> entry \<Rightarrow> world \<Rightarrow> error option outcome \<Rightarrow> nat" where
  "stored hook e s r =
     (case Format (formatter hook) e of
        Inl err \<Rightarrow> 0
      | Inr msg \<Rightarrow> if r = Return None then fst (fd_Write s 0 msg) else 0)"

text \<open>
  Along a sequence of calls, for the handle of level \<open>l\<close>: the length found at its
  last ensure-open, and the bytes stored since then by the writes of level \<open>l\<close>. The
  writes of the other levels are not counted, also when they go to the same file. The
  argument holds the two values before the sequence.
\<close>

fun since_open :: "level \<Rightarrow> LfsHook \<Rightarrow> entry list \<Rightarrow> world \<Rightarrow> int \<times> nat \<Rightarrow> int \<times> nat" where
  "since_open l hook [] s acc = acc"
| "since_open l hook (e # es) s acc =
     (case Fire hook e s of
        None \<Rightarrow> acc
      | Some (r, hook', s') \<Rightarrow>
          since_open l hook' es s'
            (if Level e = l then
               (case handleOf hook l of
                  None \<Rightarrow> acc
                | Some fe \<Rightarrow>
                    if reopens hook fe then (foundLen hook fe s, stored hook e s r)
                    else (fst acc, snd acc + stored hook e s r))
             else acc))"

text \<open>The writer of a level (the lookup at the start of \<open>ioWrite\<close>).\<close>

definition resolveWriter :: "LfsHook \<Rightarrow> level \<Rightarrow> nat option option" where
  "resolveWriter hook l =
     (case map_get (writers hook) l of
        Some w \<Rightarrow> Some w
      | None \<Rightarrow> if hasDefaultWriter hook then Some (defaultWriter hook) else None)"

section \<open>Concrete hooks and worlds\<close>

definition plain_formatter :: formatter where
  "plain_formatter = OtherFormatter (\<lambda>e. Inr (Message e))"

definition empty_world :: world where
  "empty_world = \<lparr>names = Map.empty, data = (\<lambda>_. []), fresh = 0, free = None,
     deny_open = (\<lambda>_. False), deny_stat = (\<lambda>_. False), deny_rename = (\<lambda>_. False),
     deny_remove = (\<lambda>_. False), sinks = (\<lambda>_. []), sink_fail = (\<lambda>_. False), stderr = []\<rparr>"

text \<open>A device with no space left: every write stores nothing and fails.\<close>

definition full_disk :: world where
  "full_disk = empty_world\<lparr>free := Some 0\<rparr>"

text \<open>\<open>NewLfsHook("app.log", f, 4, 2)\<close> and \<open>NewLfsHook(PathMap{InfoLevel: "info.log"}, f, 4, 2)\<close>.\<close>

definition path_hook :: LfsHook where
  "path_hook = \<lparr>paths = None, writers = None, levels = [], formatter = plain_formatter,
                  defaultPath = ''app.log'', defaultWriter = None,
                  hasDefaultPath = True, hasDefaultWriter = False,
                  FdMaxLen = 2, FdMaxSize = 4, fls = Map.empty\<rparr>"

definition info_only_hook :: LfsHook where
  "info_only_hook = \<lparr>paths = Some [InfoLevel \<mapsto> ''info.log''], writers = None,
                  levels = [InfoLevel], formatter = plain_formatter,
                  defaultPath = [], defaultWriter = None,
                  hasDefaultPath = False, hasDefaultWriter = False,
                  FdMaxLen = 2, FdMaxSize = 4, fls = Map.empty\<rparr>"

definition hello :: entry where
  "hello = \<lparr>Level = InfoLevel, Message = ''hello''\<rparr>"

text \<open>
  Worlds where \<open>app.log\<close> exists, with 3 bytes and with 5 bytes (more than the
  \<open>FdMaxSize\<close> of the hooks above); the second one again in a directory that refuses
  renames and removals though the file itself can be opened and written; the first one
  again with every open refused.
\<close>

definition small_log :: world where
  "small_log = empty_world\<lparr>names := [''app.log'' \<mapsto> 0], data := (\<lambda>_. [])(0 := ''abc''), fresh := 1\<rparr>"

definition big_log :: world where
  "big_log = empty_world\<lparr>names := [''app.log'' \<mapsto> 0], data := (\<lambda>_. [])(0 := ''12345''), fresh := 1\<rparr>"

definition readonly_dir :: world where
  "readonly_dir = big_log\<lparr>deny_rename := (\<lambda>_. True), deny_remove := (\<lambda>_. True)\<rparr>"

definition no_access :: world where
  "no_access = small_log\<lparr>deny_open := (\<lambda>_. True)\<rparr>"

text \<open>\<open>NewLfsHook("app.log", f, 4, 2)\<close> after \<open>SetDefaultWriter(w)\<close>, \<open>w\<close> the sink 7.\<close>

definition both_hook :: LfsHook where
  "both_hook = SetDefaultWriter path_hook (Some 7)"

text \<open>\<open>small_log\<close> on a device with 7 bytes left.\<close>

definition tight_log :: world where
  "tight_log = small_log\<lparr>free := Some 7\<rparr>"

text \<open>The world after \<open>app.log\<close> was rotated with the contents \<open>A\<close>, then \<open>B\<close>.\<close>

definition chain_AB :: world where
  "chain_AB = rotations path_hook ''app.log'' [''A'', ''B''] empty_world"



text \<open>
  Two more entries, one of them of another level, and \<open>small_log\<close> on a device with 4
  bytes left.
\<close>

definition note_a :: entry where
  "note_a = \<lparr>Level = InfoLevel, Message = ''a''\<rparr>"

definition error_b :: entry where
  "error_b = \<lparr>Level = ErrorLevel, Message = ''b''\<rparr>"

definition shared_log :: world where
  "shared_log = small_log\<lparr>free := Some 4\<rparr>"

section \<open>Properties\<close>

subsection \<open>The concrete hooks are what the constructor builds\<close>

lemma path_hook_constructed:
  "NewLfsHook plain_formatter (OutString ''app.log'') None [4, 2] = Return path_hook"
  by (simp add: NewLfsHook_def path_hook_def SetFormatter_def SetDefaultPath_def)

lemma info_only_hook_constructed:
  "NewLfsHook plain_formatter (OutPathMap (Some [InfoLevel \<mapsto> ''info.log''])) None [4, 2]
     = Return info_only_hook"
  by (simp add: NewLfsHook_def info_only_hook_def SetFormatter_def keys_of_def AllLevels_def)

lemma path_hook_fields:
  "paths path_hook = None" "writers path_hook = None" "hasDefaultPath path_hook"
  "\<not> hasDefaultWriter path_hook" "defaultPath path_hook = ''app.log''"
  "fls path_hook = Map.empty" "FdMaxLen path_hook = 2" "FdMaxSize path_hook = 4"
  "formatter path_hook = plain_formatter"
  by (simp_all add: path_hook_def)

lemma world_fields:
  "names small_log = [''app.log'' \<mapsto> 0]" "data small_log = (\<lambda>_. [])(0 := ''abc'')"
  "fresh small_log = 1" "deny_open small_log = (\<lambda>_. False)" "deny_stat small_log = (\<lambda>_. False)"
  "names big_log = [''app.log'' \<mapsto> 0]" "data big_log = (\<lambda>_. [])(0 := ''12345'')"
  "fresh big_log = 1" "deny_open big_log = (\<lambda>_. False)" "deny_stat big_log = (\<lambda>_. False)"
  "deny_rename big_log = (\<lambda>_. False)"
  "names readonly_dir = [''app.log'' \<mapsto> 0]" "data readonly_dir = (\<lambda>_. [])(0 := ''12345'')"
  "fresh readonly_dir = 1" "deny_open readonly_dir = (\<lambda>_. False)"
  "deny_stat readonly_dir = (\<lambda>_. False)" "deny_rename readonly_dir = (\<lambda>_. True)"
  by (simp_all add: small_log_def big_log_def readonly_dir_def empty_world_def)

lemma bak_app_log:
  "bak ''app.log'' 1 = ''app.log.1''" "bak ''app.log'' 2 = ''app.log.2''"
  "bak ''app.log'' 3 = ''app.log.3''"
  by code_simp+

subsection \<open>The registry holds handles for resolvable levels only\<close>

lemma resolvePath_None_iff:
  "resolvePath hook l = None \<longleftrightarrow> map_get (paths hook) l = None \<and> \<not> hasDefaultPath hook"
  by (simp add: resolvePath_def split: option.splits)

lemma NewLfsHook_registry_ok: "NewLfsHook df out fm maxsz = Return hook \<Longrightarrow> registry_ok hook"
  by (auto simp: NewLfsHook_def registry_ok_def SetFormatter_def SetDefaultPath_def
      SetDefaultWriter_def Let_def split: hook_output.splits option.splits formatter.splits if_splits)

lemma SetDefaultPath_registry_ok: "registry_ok hook \<Longrightarrow> registry_ok (SetDefaultPath hook p)"
  by (simp add: registry_ok_def SetDefaultPath_def resolvePath_None_iff)

lemma SetDefaultWriter_registry_ok: "registry_ok hook \<Longrightarrow> registry_ok (SetDefaultWriter hook w)"
  by (simp add: registry_ok_def SetDefaultWriter_def resolvePath_None_iff)

lemma SetFormatter_registry_ok: "registry_ok hook \<Longrightarrow> registry_ok (SetFormatter df hook fm)"
  by (auto simp: registry_ok_def SetFormatter_def resolvePath_None_iff split: option.splits formatter.splits)

lemma resolvePath_cong:
  "paths h' = paths h \<Longrightarrow> hasDefaultPath h' = hasDefaultPath h \<Longrightarrow>
   defaultPath h' = defaultPath h \<Longrightarrow> resolvePath h' l = resolvePath h l"
  by (simp add: resolvePath_def split: option.splits)

lemma fileWrite_checked_config:
  "fileWrite_checked hook e fe s = Some (r, hook', s') \<Longrightarrow>
     paths hook' = paths hook \<and> hasDefaultPath hook' = hasDefaultPath hook \<and>
     defaultPath hook' = defaultPath hook \<and>
     (\<forall>l. l \<noteq> Level e \<longrightarrow> fls hook' l = fls hook l)"
  unfolding fileWrite_checked_def
  by (auto split: option.splits if_splits sum.splits prod.splits)

lemma fileWrite_config:
  assumes "fileWrite hook e s = Some (r, hook', s')"
  shows "(\<forall>l. resolvePath hook' l = resolvePath hook l) \<and>
     (\<forall>l. l \<noteq> Level e \<longrightarrow> fls hook' l = fls hook l) \<and>
     (fls hook' (Level e) \<noteq> None \<longrightarrow>
        fls hook (Level e) \<noteq> None \<or> resolvePath hook (Level e) \<noteq> None)"
proof (cases "fls hook (Level e)")
  case (Some fe)
  with assms have "fileWrite_checked hook e fe s = Some (r, hook', s')"
    by (simp add: fileWrite_def Let_def)
  from fileWrite_checked_config [OF this] Some show ?thesis
    by (auto intro: resolvePath_cong)
next
  case None
  show ?thesis
  proof (cases "resolvePath hook (Level e)")
    case no: None
    with None assms show ?thesis
      by (simp add: fileWrite_def Let_def)
  next
    case (Some p)
    with None assms have "fileWrite_checked
        (hook\<lparr>fls := (fls hook)(Level e \<mapsto> \<lparr>fd = None, path = p, ln = 0\<rparr>)\<rparr>) e
        \<lparr>fd = None, path = p, ln = 0\<rparr> (os_MkdirAll_Dir s p) = Some (r, hook', s')"
      by (simp add: fileWrite_def Let_def)
    from fileWrite_checked_config [OF this] Some show ?thesis
      by (auto intro: resolvePath_cong)
  qed
qed

lemma Fire_registry_ok:
  assumes "Fire hook e s = Some (r, hook', s')" and "registry_ok hook"
  shows "registry_ok hook'"
proof (cases "sinkMode hook")
  case True
  with assms show ?thesis
    by (auto simp: Fire_def sinkMode_def split: prod.splits)
next
  case False
  show ?thesis
  proof (cases "paths hook \<noteq> None \<or> hasDefaultPath hook")
    case True
    with False assms(1) have "fileWrite hook e s = Some (r, hook', s')"
      by (simp add: Fire_def sinkMode_def)
    note f = fileWrite_config [OF this]
    show ?thesis
      unfolding registry_ok_def
    proof (intro allI impI)
      fix l assume "fls hook' l \<noteq> None"
      with f assms(2) show "resolvePath hook' l \<noteq> None"
        by (cases "l = Level e") (auto simp: registry_ok_def)
    qed
  next
    case False
    with \<open>\<not> sinkMode hook\<close> assms show ?thesis
      by (simp add: Fire_def sinkMode_def)
  qed
qed

subsection \<open>A level without destination\<close>

text \<open>
  C9. A record whose level has no entry in the map of the active mode, with no default
  of that mode set, is dropped: \<open>Fire\<close> returns \<open>nil\<close> and changes neither the hook nor
  the world, when it writes to sinks and when it writes to files.
\<close>

theorem Fire_unmapped_level_dropped:
  assumes "registry_ok hook"
    and "if sinkMode hook
         then map_get (writers hook) (Level e) = None \<and> \<not> hasDefaultWriter hook
         else map_get (paths hook) (Level e) = None \<and> \<not> hasDefaultPath hook"
  shows "Fire hook e s = Some (Return None, hook, s)"
proof (cases "sinkMode hook")
  case True
  with assms(2) show ?thesis
    by (simp add: Fire_def sinkMode_def ioWrite_def)
next
  case False
  with assms(2) have unmapped: "map_get (paths hook) (Level e) = None" "\<not> hasDefaultPath hook"
    by simp_all
  then have none: "resolvePath hook (Level e) = None"
    by (simp add: resolvePath_def)
  with assms(1) have "fls hook (Level e) = None"
    by (auto simp: registry_ok_def)
  with none False show ?thesis
    by (simp add: Fire_def sinkMode_def fileWrite_def)
qed

theorem Fire_unmapped_level_dropped_witness:
  "registry_ok info_only_hook \<and> \<not> sinkMode info_only_hook
   \<and> map_get (paths info_only_hook) ErrorLevel = None \<and> \<not> hasDefaultPath info_only_hook
   \<and> Fire info_only_hook \<lparr>Level = ErrorLevel, Message = ''boom''\<rparr> empty_world
       = Some (Return None, info_only_hook, empty_world)"
proof -
  have ok: "registry_ok info_only_hook"
    by (simp add: registry_ok_def info_only_hook_def)
  have un: "if sinkMode info_only_hook
         then map_get (writers info_only_hook) (Level \<lparr>Level = ErrorLevel, Message = ''boom''\<rparr>) = None
              \<and> \<not> hasDefaultWriter info_only_hook
         else map_get (paths info_only_hook) (Level \<lparr>Level = ErrorLevel, Message = ''boom''\<rparr>) = None
              \<and> \<not> hasDefaultPath info_only_hook"
    by (simp add: sinkMode_def info_only_hook_def map_get_def)
  from Fire_unmapped_level_dropped [OF ok un, of empty_world] ok show ?thesis
    by (simp add: sinkMode_def info_only_hook_def map_get_def)
qed

subsection \<open>A failing write\<close>

text \<open>The sink path returns the error of the write to the caller of \<open>Fire\<close>.\<close>

lemma Fire_sink_write_error:
  assumes "map_get (writers hook) (Level e) = Some (Some w)"
    and "Format (formatter hook) e = Inr msg" and "sink_fail s w"
  shows "Fire hook e s = Some (Return (Some (ErrWriter w)), hook, s)"
proof -
  from assms(1) have "writers hook \<noteq> None"
    by (auto simp: map_get_def split: option.splits)
  with assms show ?thesis
    by (simp add: Fire_def ioWrite_def writer_Write_def)
qed

text \<open>
  C2. The file path does not: on a device with no space left the write of \<open>hello\<close>
  stores no byte and reports \<open>ErrNoSpace\<close>, and \<open>Fire\<close> returns \<open>nil\<close>.
\<close>

theorem Fire_file_write_error_dropped:
  "Fire path_hook hello full_disk
     = Some (Return None,
         path_hook\<lparr>fls := [InfoLevel \<mapsto> \<lparr>fd = Some 0, path = ''app.log'', ln = 0\<rparr>]\<rparr>,
         full_disk\<lparr>names := [''app.log'' \<mapsto> 0], fresh := 1\<rparr>)
   \<and> fd_Write (full_disk\<lparr>names := [''app.log'' \<mapsto> 0], fresh := 1\<rparr>) 0 (Message hello)
     = (0, Some ErrNoSpace, full_disk\<lparr>names := [''app.log'' \<mapsto> 0], fresh := 1\<rparr>)"
  by (simp add: Fire_def fileWrite_def Let_def fileWrite_checked_def resolvePath_def path_hook_def
      full_disk_def empty_world_def map_get_def os_MkdirAll_Dir_def fileCheck.simps os_Stat_def
      os_OpenFile_def fd_Write_def plain_formatter_def hello_def fun_eq_iff)

theorem Fire_file_write_error_dropped_witness:
  "map_option fst (Fire path_hook hello full_disk) = Some (Return None)"
  using Fire_file_write_error_dropped by simp

subsection \<open>Only the directory changes in a roll-over\<close>

lemma os_Rename_names_only: "\<exists>n. snd (os_Rename s a b) = s\<lparr>names := n\<rparr>"
  by (auto simp: os_Rename_def split: option.splits intro: exI [of _ "names s"])

lemma os_RemoveAll_names_only: "\<exists>n. os_RemoveAll s a = s\<lparr>names := n\<rparr>"
  by (auto simp: os_RemoveAll_def intro: exI [of _ "names s"])

lemma fileBakMove_loop_names_only: "\<exists>n. fileBakMove_loop m s p i = s\<lparr>names := n\<rparr>"
proof (induction m s p i rule: fileBakMove_loop.induct)
  case (1 m s p i)
  show ?case
  proof (cases "i < m")
    case True
    obtain n1 where n1: "snd (os_Rename s (bak p (i + 1)) (bak p i)) = s\<lparr>names := n1\<rparr>"
      using os_Rename_names_only by blast
    from 1 [OF True] obtain n2 where
      "fileBakMove_loop m (snd (os_Rename s (bak p (i + 1)) (bak p i))) p (i + 1)
         = (snd (os_Rename s (bak p (i + 1)) (bak p i)))\<lparr>names := n2\<rparr>"
      by blast
    with n1 True show ?thesis
      by (subst fileBakMove_loop.simps) auto
  next
    case False
    then show ?thesis
      by (subst fileBakMove_loop.simps) (auto intro: exI [of _ "names s"])
  qed
qed

lemma fileBakMove_names_only: "\<exists>n. fileBakMove c s p = s\<lparr>names := n\<rparr>"
proof -
  obtain n1 where n1: "os_RemoveAll s (bak p 1) = s\<lparr>names := n1\<rparr>"
    using os_RemoveAll_names_only by blast
  obtain n2 where "fileBakMove_loop (FdMaxLen c) (os_RemoveAll s (bak p 1)) p 1
      = (os_RemoveAll s (bak p 1))\<lparr>names := n2\<rparr>"
    using fileBakMove_loop_names_only by blast
  with n1 show ?thesis
    by (auto simp: fileBakMove_def)
qed

lemma rollOver_names_only: "\<exists>n. rollOver c s p = s\<lparr>names := n\<rparr>"
proof -
  obtain n1 where n1: "fileBakMove c s p = s\<lparr>names := n1\<rparr>"
    using fileBakMove_names_only by blast
  obtain n2 where n2: "snd (os_Rename (fileBakMove c s p) p (bak p (fileBakLen c s p)))
      = (fileBakMove c s p)\<lparr>names := n2\<rparr>"
    using os_Rename_names_only by blast
  obtain n3 where n3: "snd (os_Rename s p (bak p (fileBakLen c s p + 1))) = s\<lparr>names := n3\<rparr>"
    using os_Rename_names_only by blast
  from n1 n2 n3 show ?thesis
    by (auto simp: rollOver_def Let_def)
qed

lemma rollOver_deny_open [simp]: "deny_open (rollOver c s p) = deny_open s"
proof -
  obtain n where "rollOver c s p = s\<lparr>names := n\<rparr>" using rollOver_names_only by blast
  then show ?thesis by simp
qed

lemma rollOver_data [simp]: "data (rollOver c s p) = data s"
proof -
  obtain n where "rollOver c s p = s\<lparr>names := n\<rparr>" using rollOver_names_only by blast
  then show ?thesis by simp
qed

lemma rollOver_fresh [simp]: "fresh (rollOver c s p) = fresh s"
proof -
  obtain n where "rollOver c s p = s\<lparr>names := n\<rparr>" using rollOver_names_only by blast
  then show ?thesis by simp
qed

lemma fileBakMove_deny_rename: "deny_rename (fileBakMove c s p) = deny_rename s"
proof -
  obtain n where "fileBakMove c s p = s\<lparr>names := n\<rparr>" using fileBakMove_names_only by blast
  then show ?thesis by simp
qed

lemma rollOver_cong:
  "FdMaxLen c' = FdMaxLen c \<Longrightarrow> rollOver c' s p = rollOver c s p"
  by (simp add: rollOver_def fileBakLen_def fileBakMove_def Let_def)

subsection \<open>The base file leaves its name\<close>

lemma bak_neq_base [simp]: "bak p i \<noteq> p" "p \<noteq> bak p i"
  by (simp_all add: bak_def)

lemma os_Rename_other:
  "q \<noteq> a \<Longrightarrow> q \<noteq> b \<Longrightarrow> names (snd (os_Rename s a b)) q = names s q"
  by (simp add: os_Rename_def split: option.splits)

lemma os_RemoveAll_other: "q \<noteq> a \<Longrightarrow> names (os_RemoveAll s a) q = names s q"
  by (simp add: os_RemoveAll_def)

lemma fileBakMove_loop_other:
  "(\<And>j. q \<noteq> bak p j) \<Longrightarrow> names (fileBakMove_loop m s p i) q = names s q"
proof (induction m s p i rule: fileBakMove_loop.induct)
  case (1 m s p i)
  show ?case
  proof (cases "i < m")
    case True
    with 1 show ?thesis
      by (subst fileBakMove_loop.simps) (simp add: os_Rename_other)
  next
    case False
    then show ?thesis
      by (subst fileBakMove_loop.simps) simp
  qed
qed

lemma fileBakMove_base: "names (fileBakMove c s p) p = names s p"
  by (simp add: fileBakMove_def fileBakMove_loop_other os_RemoveAll_other)


subsection \<open>One iteration of \<open>fileCheck\<close>\<close>

lemma os_OpenFile_deny_open:
  "os_OpenFile s p = (r, s') \<Longrightarrow> deny_open s' = deny_open s"
  by (auto simp: os_OpenFile_def split: if_splits option.splits)

lemma os_OpenFile_Inl:
  "os_OpenFile s p = (Inl err, s') \<Longrightarrow> err = ErrOpen p \<and> s' = s \<and> deny_open s p"
  by (auto simp: os_OpenFile_def split: if_splits option.splits)

lemma os_OpenFile_denied: "deny_open s p \<Longrightarrow> os_OpenFile s p = (Inl (ErrOpen p), s)"
  by (simp add: os_OpenFile_def)

lemma startLen_absent: "names s p = None \<Longrightarrow> startLen s p = 0"
  by (simp add: startLen_def os_Stat_def)

lemma startLen_present:
  "names s p = Some i \<Longrightarrow> \<not> deny_stat s p \<Longrightarrow> startLen s p = int (length (data s i))"
  by (simp add: startLen_def os_Stat_def)

lemma fileCheck_closed:
  "fd fe = None \<Longrightarrow>
   fileCheck c fe s =
     (case os_OpenFile s (path fe) of
        (Inl err, s') \<Rightarrow> Some (Some err, fe\<lparr>ln := startLen s (path fe)\<rparr>, s')
      | (Inr fl, s') \<Rightarrow> fileCheck c (fe\<lparr>ln := startLen s (path fe), fd := Some fl\<rparr>) s')"
  by (subst fileCheck.simps) (simp add: startLen_def Let_def split: stat_result.splits prod.splits sum.splits)

lemma fileCheck_within:
  "fd fe = Some i \<Longrightarrow> ln fe \<le> FdMaxSize c \<Longrightarrow> fileCheck c fe s = Some (None, fe, s)"
  by (subst fileCheck.simps) simp

lemma fileCheck_over:
  "fd fe = Some i \<Longrightarrow> FdMaxSize c < ln fe \<Longrightarrow>
   fileCheck c fe s = fileCheck c (fe\<lparr>fd := None\<rparr>) (rollOver c s (path fe))"
  by (subst fileCheck.simps) (simp add: Let_def)

lemma fileCheck_create:
  assumes "fd fe = None" and "names s (path fe) = None" and "\<not> deny_open s (path fe)"
    and "0 \<le> FdMaxSize c"
  shows "fileCheck c fe s
     = Some (None, fe\<lparr>ln := 0, fd := Some (fresh s)\<rparr>, snd (os_OpenFile s (path fe)))"
  using assms
  by (simp add: fileCheck_closed startLen_absent os_OpenFile_def
      fileCheck_within [of _ "fresh s"])

subsection \<open>What a returning \<open>fileCheck\<close> returns\<close>

text \<open>
  An error is the error of the open, with the handle closed; without error the handle
  is open and its tracked length is within the limit.
\<close>

lemma fileCheck_result:
  assumes "fileCheck c fe s = Some r"
  shows "path (fst (snd r)) = path fe \<and>
         (case fst r of
            Some err \<Rightarrow> fd (fst (snd r)) = None \<and> err = ErrOpen (path fe) \<and> deny_open s (path fe)
          | None \<Rightarrow> fd (fst (snd r)) \<noteq> None \<and> ln (fst (snd r)) \<le> FdMaxSize c)"
proof -
  let ?P = "\<lambda>c fe s r. path (fst (snd r)) = path fe \<and>
         (case fst r of
            Some err \<Rightarrow> fd (fst (snd r)) = None \<and> err = ErrOpen (path fe) \<and> deny_open s (path fe)
          | None \<Rightarrow> fd (fst (snd r)) \<noteq> None \<and> ln (fst (snd r)) \<le> FdMaxSize c)"
  show ?thesis
  proof (rule fileCheck.raw_induct [where P = ?P, OF _ assms])
    fix f and c :: LfsHook and fe :: lfsFile and s :: world
      and r :: "error option \<times> lfsFile \<times> world"
    assume IH: "\<And>c fe s r. f c fe s = Some r \<Longrightarrow> ?P c fe s r"
      and step: "(if fd fe = None
        then let fe1 = fe\<lparr>ln := 0\<rparr>;
                 fe2 = case os_Stat s (path fe) of StatOk sz \<Rightarrow> fe1\<lparr>ln := int sz\<rparr> | _ \<Rightarrow> fe1
             in case os_OpenFile s (path fe) of
                  (Inl err, s') \<Rightarrow> Some (Some err, fe2, s')
                | (Inr fl, s') \<Rightarrow> f c (fe2\<lparr>fd := Some fl\<rparr>) s'
        else if FdMaxSize c < ln fe
             then let fe1 = fe\<lparr>fd := None\<rparr> in f c fe1 (rollOver c s (path fe))
             else Some (None, fe, s)) = Some r"
    show "?P c fe s r"
    proof (cases "fd fe")
      case None
      show ?thesis
      proof (cases "os_OpenFile s (path fe)")
        case (Pair o1 s1)
        show ?thesis
        proof (cases o1)
          case (Inl err)
          with Pair None step os_OpenFile_Inl [of s "path fe" err s1] show ?thesis
            by (auto simp: Let_def split: stat_result.splits)
        next
          case (Inr fl)
          define fe2 where "fe2 = (case os_Stat s (path fe) of
              StatOk sz \<Rightarrow> fe\<lparr>ln := 0, ln := int sz\<rparr> | _ \<Rightarrow> fe\<lparr>ln := 0\<rparr>)"
          have p2: "path fe2 = path fe"
            by (simp add: fe2_def split: stat_result.splits)
          from Inr Pair None step have "f c (fe2\<lparr>fd := Some fl\<rparr>) s1 = Some r"
            by (simp add: Let_def fe2_def)
          from IH [OF this] p2 os_OpenFile_deny_open [OF Pair] show ?thesis
            by (auto split: option.splits)
        qed
      qed
    next
      case (Some i)
      show ?thesis
      proof (cases "FdMaxSize c < ln fe")
        case True
        with Some step have "f c (fe\<lparr>fd := None\<rparr>) (rollOver c s (path fe)) = Some r"
          by (simp add: Let_def)
        from IH [OF this] show ?thesis
          by (auto split: option.splits)
      next
        case False
        with Some step show ?thesis by auto
      qed
    qed
  qed
qed

text \<open>Of the hook, \<open>fileCheck\<close> reads \<open>FdMaxLen\<close> and \<open>FdMaxSize\<close> only.\<close>

lemma fileCheck_config_Some:
  assumes "fileCheck c fe s = Some r"
  shows "\<forall>c'::LfsHook. FdMaxLen c' = FdMaxLen c \<and> FdMaxSize c' = FdMaxSize c \<longrightarrow> fileCheck c' fe s = Some r"
proof (rule fileCheck.raw_induct [where P = "\<lambda>c fe s r. \<forall>c'::LfsHook. FdMaxLen c' = FdMaxLen c \<and>
      FdMaxSize c' = FdMaxSize c \<longrightarrow> fileCheck c' fe s = Some r", OF _ assms], goal_cases)
  case (1 f c fe s r)
  note IH = 1(1) and step = 1(2)
  show ?case
  proof (intro allI impI)
    fix c' :: LfsHook assume same: "FdMaxLen c' = FdMaxLen c \<and> FdMaxSize c' = FdMaxSize c"
    show "fileCheck c' fe s = Some r"
    proof (cases "fd fe")
      case None
      obtain o1 s1 where op: "os_OpenFile s (path fe) = (o1, s1)"
        by (cases "os_OpenFile s (path fe)")
      show ?thesis
      proof (cases o1)
        case (Inl err)
        with op None step show ?thesis
          by (simp add: fileCheck_closed startLen_def Let_def split: stat_result.splits)
      next
        case (Inr fl)
        with op None step
        have "f c (fe\<lparr>ln := startLen s (path fe), fd := Some fl\<rparr>) s1 = Some r"
          by (simp add: startLen_def Let_def split: stat_result.splits)
        from IH [OF this] same Inr op None show ?thesis
          by (simp add: fileCheck_closed)
      qed
    next
      case (Some i)
      show ?thesis
      proof (cases "FdMaxSize c < ln fe")
        case True
        with Some step have "f c (fe\<lparr>fd := None\<rparr>) (rollOver c s (path fe)) = Some r"
          by (simp add: Let_def)
        from IH [OF this] same True Some show ?thesis
          by (simp add: fileCheck_over [of fe i] rollOver_cong [of c' c])
      next
        case False
        with Some step same show ?thesis
          by (simp add: fileCheck_within [of fe i])
      qed
    qed
  qed
qed

lemma fileCheck_cong:
  assumes "FdMaxLen c' = FdMaxLen c" and "FdMaxSize c' = FdMaxSize c"
  shows "fileCheck c' fe s = fileCheck c fe s"
proof (cases "fileCheck c fe s")
  case (Some r)
  with fileCheck_config_Some [OF Some] assms show ?thesis by simp
next
  case None
  show ?thesis
  proof (cases "fileCheck c' fe s")
    case n: None
    with None show ?thesis by simp
  next
    case (Some r)
    from fileCheck_config_Some [OF Some] assms have "fileCheck c fe s = Some r" by simp
    with None show ?thesis by simp
  qed
qed

subsection \<open>The starting length of a handle\<close>

text \<open>
  C10. Ensure-open on a closed handle, when open and stat are not refused. If the file
  exists, its size becomes the tracked length and the threshold check that follows works
  on it: within the limit \<open>fileCheck\<close> returns with that length, beyond the limit it
  rolls the file over before anything is written. If the file does not exist it is
  created and the tracked length is 0.
\<close>

theorem ensure_open_starting_length:
  assumes "fd fe = None" and "\<not> deny_open s (path fe)" and "\<not> deny_stat s (path fe)"
  shows "case names s (path fe) of
           Some i \<Rightarrow>
             (int (length (data s i)) \<le> FdMaxSize c \<longrightarrow>
                fileCheck c fe s = Some (None, fe\<lparr>ln := int (length (data s i)), fd := Some i\<rparr>, s)) \<and>
             (FdMaxSize c < int (length (data s i)) \<longrightarrow>
                fileCheck c fe s
                  = fileCheck c (fe\<lparr>ln := int (length (data s i)), fd := None\<rparr>)
                      (rollOver c s (path fe)))
         | None \<Rightarrow>
             (0 \<le> FdMaxSize c \<longrightarrow>
                fileCheck c fe s
                  = Some (None, fe\<lparr>ln := 0, fd := Some (fresh s)\<rparr>, snd (os_OpenFile s (path fe))))"
proof (cases "names s (path fe)")
  case None
  with assms show ?thesis
    by (simp add: fileCheck_create)
next
  case (Some i)
  with assms have opened: "fileCheck c fe s
      = fileCheck c (fe\<lparr>ln := int (length (data s i)), fd := Some i\<rparr>) s"
    by (simp add: fileCheck_closed startLen_present os_OpenFile_def)
  have "int (length (data s i)) \<le> FdMaxSize c \<Longrightarrow>
      fileCheck c fe s = Some (None, fe\<lparr>ln := int (length (data s i)), fd := Some i\<rparr>, s)"
    by (simp add: opened fileCheck_within [of _ i])
  moreover have "FdMaxSize c < int (length (data s i)) \<Longrightarrow>
      fileCheck c fe s
        = fileCheck c (fe\<lparr>ln := int (length (data s i)), fd := None\<rparr>) (rollOver c s (path fe))"
    by (simp add: opened fileCheck_over [of _ i])
  ultimately show ?thesis
    using Some by simp
qed

lemma rollOver_big_log:
  "rollOver path_hook big_log ''app.log'' = big_log\<lparr>names := [''app.log.1'' \<mapsto> 0]\<rparr>"
  by (simp add: rollOver_def fileBakLen_def fileBakLen_loop.simps [of _ _ _ 1] os_Stat_def
      bak_app_log path_hook_fields world_fields os_Rename_def fun_eq_iff)

theorem ensure_open_starting_length_witness:
  "fileCheck path_hook \<lparr>fd = None, path = ''app.log'', ln = 0\<rparr> small_log
     = Some (None, \<lparr>fd = Some 0, path = ''app.log'', ln = 3\<rparr>, small_log)
   \<and> fileCheck path_hook \<lparr>fd = None, path = ''app.log'', ln = 0\<rparr> big_log
     = fileCheck path_hook \<lparr>fd = None, path = ''app.log'', ln = 5\<rparr>
         (big_log\<lparr>names := [''app.log.1'' \<mapsto> 0]\<rparr>)
   \<and> fileCheck path_hook \<lparr>fd = None, path = ''app.log'', ln = 0\<rparr> empty_world
     = Some (None, \<lparr>fd = Some 0, path = ''app.log'', ln = 0\<rparr>,
         empty_world\<lparr>names := [''app.log'' \<mapsto> 0], fresh := 1\<rparr>)"
  using ensure_open_starting_length [of "\<lparr>fd = None, path = ''app.log'', ln = 0\<rparr>" small_log path_hook]
    ensure_open_starting_length [of "\<lparr>fd = None, path = ''app.log'', ln = 0\<rparr>" big_log path_hook]
    ensure_open_starting_length [of "\<lparr>fd = None, path = ''app.log'', ln = 0\<rparr>" empty_world path_hook]
  by (simp add: world_fields path_hook_fields rollOver_big_log os_OpenFile_def empty_world_def fun_eq_iff)

subsection \<open>A rename that fails\<close>

text \<open>
  In \<open>readonly_dir\<close> the base file is over the limit and cannot be renamed: the
  roll-over changes nothing, ensure-open finds the same file with the same size, and the
  loop goes round for ever.
\<close>

lemma rollOver_readonly_dir: "rollOver path_hook readonly_dir ''app.log'' = readonly_dir"
  by (simp add: rollOver_def fileBakLen_def fileBakLen_loop.simps [of _ _ _ 1] os_Stat_def
      bak_app_log path_hook_fields world_fields os_Rename_def)

lemma fileCheck_diverges_aux:
  assumes "fileCheck c fe s = Some r"
  shows "\<not> (c = path_hook \<and> s = readonly_dir \<and> path fe = ''app.log'' \<and> (fd fe \<noteq> None \<longrightarrow> ln fe = 5))"
proof (rule fileCheck.raw_induct [where P = "\<lambda>c fe s r. \<not> (c = path_hook \<and> s = readonly_dir \<and>
      path fe = ''app.log'' \<and> (fd fe \<noteq> None \<longrightarrow> ln fe = 5))", OF _ assms], goal_cases)
  case (1 f c fe s r)
  note IH = 1(1) and step = 1(2)
  show ?case
  proof
    assume inv: "c = path_hook \<and> s = readonly_dir \<and> path fe = ''app.log'' \<and> (fd fe \<noteq> None \<longrightarrow> ln fe = 5)"
    show False
    proof (cases "fd fe")
      case None
      with inv step have "f c (fe\<lparr>ln := 5, fd := Some 0\<rparr>) s = Some r"
        by (simp add: Let_def os_Stat_def os_OpenFile_def world_fields)
      from IH [OF this] inv show False by simp
    next
      case (Some i)
      with inv step have "f c (fe\<lparr>fd := None\<rparr>) s = Some r"
        by (simp add: Let_def rollOver_readonly_dir path_hook_fields)
      from IH [OF this] inv show False by simp
    qed
  qed
qed

lemma fileCheck_diverges:
  "fileCheck path_hook \<lparr>fd = None, path = ''app.log'', ln = 0\<rparr> readonly_dir = None"
proof (cases "fileCheck path_hook \<lparr>fd = None, path = ''app.log'', ln = 0\<rparr> readonly_dir")
  case None then show ?thesis .
next
  case (Some r)
  from fileCheck_diverges_aux [OF Some] show ?thesis by simp
qed

text \<open>
  C6. \<open>fileCheck\<close> does not terminate on every input: the first \<open>Fire\<close> of a hook
  on \<open>app.log\<close> in \<open>readonly_dir\<close> never returns.
\<close>

theorem Fire_never_returns: "Fire path_hook hello readonly_dir = None"
proof -
  have "fileCheck (path_hook\<lparr>fls := [InfoLevel \<mapsto> \<lparr>fd = None, path = ''app.log'', ln = 0\<rparr>]\<rparr>)
          \<lparr>fd = None, path = ''app.log'', ln = 0\<rparr> readonly_dir = None"
    by (simp add: fileCheck_cong [of _ path_hook] fileCheck_diverges)
  then show ?thesis
    by (simp add: Fire_def fileWrite_def fileWrite_checked_def Let_def resolvePath_def map_get_def
        os_MkdirAll_Dir_def hello_def path_hook_fields)
qed

theorem Fire_never_returns_witness:
  "map_option fst (Fire path_hook hello readonly_dir) = None"
  using Fire_never_returns by simp

subsection \<open>An open that fails\<close>

lemma fileCheck_closed_ln: "fd fe = None \<Longrightarrow> fileCheck c (fe\<lparr>ln := n\<rparr>) s = fileCheck c fe s"
  by (simp add: fileCheck_closed split: prod.splits sum.splits)

lemma fileCheck_open_denied:
  assumes "fd fe = None" and "deny_open s (path fe)"
  shows "fileCheck c fe s = Some (Some (ErrOpen (path fe)), fe\<lparr>ln := startLen s (path fe)\<rparr>, s)"
  using assms by (simp add: fileCheck_closed os_OpenFile_denied)

lemma fileWrite_handleOf:
  "fileWrite hook e s =
     (case handleOf hook (Level e) of
        None \<Rightarrow> Some (Return None, hook, s)
      | Some fe \<Rightarrow> fileWrite_checked (hook\<lparr>fls := (fls hook)(Level e \<mapsto> fe)\<rparr>) e fe s)"
proof (cases "fls hook (Level e)")
  case None
  then show ?thesis
    by (simp add: fileWrite_def handleOf_def Let_def os_MkdirAll_Dir_def split: option.splits)
next
  case (Some fe)
  then have "hook\<lparr>fls := (fls hook)(Level e \<mapsto> fe)\<rparr> = hook"
    by (simp add: map_upd_triv)
  with Some show ?thesis
    by (simp add: fileWrite_def handleOf_def)
qed

text \<open>
  C8. A \<open>Fire\<close> in file mode whose handle has to be opened (it is closed, or it is
  over the limit and is rolled over first), when the open is refused: \<open>Fire\<close> returns
  the error of the open, the handle stays closed, and nothing is written (the contents of
  all files are as before). On any later world, the next \<open>Fire\<close> does what it does
  for a handle that was never opened: ensure-open runs again from the start.
\<close>

theorem Fire_open_failure:
  assumes "\<not> sinkMode hook" and "registry_ok hook"
    and "handleOf hook (Level e) = Some fe"
    and "deny_open s (path fe)"
    and "fd fe = None \<or> FdMaxSize hook < ln fe"
  shows "\<exists>fe' s'.
           Fire hook e s = Some (Return (Some (ErrOpen (path fe))),
                                 hook\<lparr>fls := (fls hook)(Level e \<mapsto> fe')\<rparr>, s')
         \<and> fd fe' = None \<and> path fe' = path fe \<and> data s' = data s
         \<and> (\<forall>s2. Fire (hook\<lparr>fls := (fls hook)(Level e \<mapsto> fe')\<rparr>) e s2
                 = Fire (hook\<lparr>fls := (fls hook)(Level e \<mapsto> \<lparr>fd = None, path = path fe, ln = 0\<rparr>)\<rparr>) e s2)"
proof -
  let ?h = "hook\<lparr>fls := (fls hook)(Level e \<mapsto> fe)\<rparr>"
  from assms(3) have "resolvePath hook (Level e) \<noteq> None"
    using assms(2) by (auto simp: handleOf_def registry_ok_def split: option.splits)
  then have filemode: "paths hook \<noteq> None \<or> hasDefaultPath hook"
    by (auto simp: resolvePath_None_iff map_get_def split: option.splits)
  with assms(1,3) have fire: "Fire hook e s = fileWrite_checked ?h e fe s"
    by (simp add: Fire_def sinkMode_def fileWrite_handleOf)
  have cfg: "fileCheck ?h = fileCheck hook"
    by (intro ext fileCheck_cong) simp_all
  obtain fe' s' where chk: "fileCheck hook fe s = Some (Some (ErrOpen (path fe)), fe', s')"
    and closed: "fd fe' = None" and same: "path fe' = path fe" and dat: "data s' = data s"
  proof (cases "fd fe")
    case None
    with assms(4) that show ?thesis
      by (simp add: fileCheck_open_denied)
  next
    case (Some i)
    with assms(5) have over: "FdMaxSize hook < ln fe" by simp
    from assms(4) have "fileCheck hook (fe\<lparr>fd := None\<rparr>) (rollOver hook s (path fe))
        = Some (Some (ErrOpen (path fe)),
            fe\<lparr>fd := None, ln := startLen (rollOver hook s (path fe)) (path fe)\<rparr>,
            rollOver hook s (path fe))"
      by (simp add: fileCheck_open_denied)
    with Some over that show ?thesis
      by (simp add: fileCheck_over [of fe i])
  qed
  from fire chk cfg have res: "Fire hook e s = Some (Return (Some (ErrOpen (path fe))),
      hook\<lparr>fls := (fls hook)(Level e \<mapsto> fe')\<rparr>, s')"
    by (simp add: fileWrite_checked_def)
  have retry: "Fire (hook\<lparr>fls := (fls hook)(Level e \<mapsto> fe')\<rparr>) e s2
      = Fire (hook\<lparr>fls := (fls hook)(Level e \<mapsto> \<lparr>fd = None, path = path fe, ln = 0\<rparr>)\<rparr>) e s2" for s2
  proof -
    have eq: "fe'\<lparr>ln := 0\<rparr> = \<lparr>fd = None, path = path fe, ln = 0\<rparr>"
      using closed same by simp
    have "fileCheck hook fe' s2 = fileCheck hook (fe'\<lparr>ln := 0\<rparr>) s2"
      using closed by (simp add: fileCheck_closed_ln)
    with eq have chk2: "fileCheck hook fe' s2 = fileCheck hook \<lparr>fd = None, path = path fe, ln = 0\<rparr> s2"
      by simp
    have c1: "fileCheck (hook\<lparr>fls := (fls hook)(Level e \<mapsto> fe')\<rparr>) = fileCheck hook"
      by (intro ext fileCheck_cong) simp_all
    have c2: "fileCheck (hook\<lparr>fls := (fls hook)(Level e \<mapsto> \<lparr>fd = None, path = path fe, ln = 0\<rparr>)\<rparr>)
        = fileCheck hook"
      by (intro ext fileCheck_cong) simp_all
    from assms(1) filemode chk2 show ?thesis
      by (simp add: Fire_def sinkMode_def fileWrite_def fileWrite_checked_def c1 c2
          split: option.splits prod.splits sum.splits)
  qed
  from res closed same dat retry show ?thesis
    by blast
qed

theorem Fire_open_failure_witness:
  "\<exists>fe' s'.
      Fire path_hook hello no_access
        = Some (Return (Some (ErrOpen ''app.log'')),
                path_hook\<lparr>fls := (fls path_hook)(InfoLevel \<mapsto> fe')\<rparr>, s')
    \<and> fd fe' = None \<and> path fe' = ''app.log'' \<and> data s' = data no_access
    \<and> (\<forall>s2. Fire (path_hook\<lparr>fls := (fls path_hook)(InfoLevel \<mapsto> fe')\<rparr>) hello s2
            = Fire (path_hook\<lparr>fls := (fls path_hook)
                      (InfoLevel \<mapsto> \<lparr>fd = None, path = ''app.log'', ln = 0\<rparr>)\<rparr>) hello s2)"
proof -
  have mode: "\<not> sinkMode path_hook"
    by (simp add: sinkMode_def path_hook_fields)
  have reg: "registry_ok path_hook"
    by (simp add: registry_ok_def path_hook_fields)
  have h: "handleOf path_hook (Level hello) = Some \<lparr>fd = None, path = ''app.log'', ln = 0\<rparr>"
    by (simp add: handleOf_def resolvePath_def map_get_def path_hook_fields hello_def)
  have denied: "deny_open no_access (path \<lparr>fd = None, path = ''app.log'', ln = 0\<rparr>)"
    by (simp add: no_access_def)
  have closed: "fd \<lparr>fd = None, path = ''app.log'', ln = 0\<rparr> = None
      \<or> FdMaxSize path_hook < ln \<lparr>fd = None, path = ''app.log'', ln = 0\<rparr>"
    by simp
  from Fire_open_failure [OF mode reg h denied closed] show ?thesis
    by (simp add: hello_def)
qed

subsection \<open>What \<open>fileCheck\<close> and \<open>fileWrite\<close> leave alone\<close>

lemma world_frame_refl: "\<exists>n d f. s = s\<lparr>names := n, data := d, fresh := f\<rparr>"
proof -
  have "s = s\<lparr>names := names s, data := data s, fresh := fresh s\<rparr>" by simp
  then show ?thesis by blast
qed

lemma os_OpenFile_frame:
  assumes "os_OpenFile s p = (r, s')"
  shows "\<exists>n d f. s' = s\<lparr>names := n, data := d, fresh := f\<rparr>"
proof (cases "deny_open s p \<or> names s p \<noteq> None")
  case True
  with assms have "s' = s"
    by (auto simp: os_OpenFile_def split: if_splits)
  then show ?thesis
    by (simp add: world_frame_refl)
next
  case False
  with assms have "s' = s\<lparr>names := (names s)(p \<mapsto> fresh s), data := (data s)(fresh s := []),
      fresh := Suc (fresh s)\<rparr>"
    by (auto simp: os_OpenFile_def)
  then show ?thesis by blast
qed

lemma fileCheck_frame:
  assumes "fileCheck c fe s = Some r"
  shows "\<exists>n d f. snd (snd r) = s\<lparr>names := n, data := d, fresh := f\<rparr>"
proof (rule fileCheck.raw_induct [where P = "\<lambda>c fe s r.
      \<exists>n d f. snd (snd r) = s\<lparr>names := n, data := d, fresh := f\<rparr>", OF _ assms], goal_cases)
  case (1 f c fe s r)
  note IH = 1(1) and step = 1(2)
  show ?case
  proof (cases "fd fe")
    case None
    obtain o1 s1 where op: "os_OpenFile s (path fe) = (o1, s1)"
      by (cases "os_OpenFile s (path fe)")
    from os_OpenFile_frame [OF op] obtain n1 d1 f1 where
      s1: "s1 = s\<lparr>names := n1, data := d1, fresh := f1\<rparr>" by blast
    show ?thesis
    proof (cases o1)
      case (Inl err)
      with op None step os_OpenFile_Inl [of s "path fe" err s1] have "snd (snd r) = s"
        by (auto simp: Let_def)
      then show ?thesis by (simp add: world_frame_refl)
    next
      case (Inr fl)
      with op None step
      have "f c (fe\<lparr>ln := startLen s (path fe), fd := Some fl\<rparr>) s1 = Some r"
        by (simp add: startLen_def Let_def split: stat_result.splits)
      from IH [OF this] obtain n d f where "snd (snd r) = s1\<lparr>names := n, data := d, fresh := f\<rparr>"
        by blast
      with s1 have "snd (snd r) = s\<lparr>names := n, data := d, fresh := f\<rparr>" by simp
      then show ?thesis by blast
    qed
  next
    case (Some i)
    show ?thesis
    proof (cases "FdMaxSize c < ln fe")
      case True
      with Some step have "f c (fe\<lparr>fd := None\<rparr>) (rollOver c s (path fe)) = Some r"
        by (simp add: Let_def)
      from IH [OF this] obtain n d f where
        r: "snd (snd r) = (rollOver c s (path fe))\<lparr>names := n, data := d, fresh := f\<rparr>"
        by blast
      obtain n0 where "rollOver c s (path fe) = s\<lparr>names := n0\<rparr>"
        using rollOver_names_only by blast
      with r have "snd (snd r) = s\<lparr>names := n, data := d, fresh := f\<rparr>" by simp
      then show ?thesis by blast
    next
      case False
      with Some step have "snd (snd r) = s" by auto
      then show ?thesis by (simp add: world_frame_refl)
    qed
  qed
qed

lemma fileCheck_sinks: "fileCheck c fe s = Some (r, fe', s') \<Longrightarrow> sinks s' = sinks s"
  by (drule fileCheck_frame) auto

lemma fileWrite_checked_rest:
  "fileWrite_checked hook e fe s = Some (r, hook', s') \<Longrightarrow> hook'\<lparr>fls := fls hook\<rparr> = hook"
  unfolding fileWrite_checked_def
  by (auto split: option.splits sum.splits prod.splits)

lemma fileWrite_rest:
  assumes "fileWrite hook e s = Some (r, hook', s')"
  shows "hook'\<lparr>fls := fls hook\<rparr> = hook"
proof (cases "fls hook (Level e)")
  case (Some fe)
  with assms show ?thesis
    by (auto simp: fileWrite_def dest: fileWrite_checked_rest)
next
  case None
  show ?thesis
  proof (cases "resolvePath hook (Level e)")
    case no: None
    with None assms show ?thesis
      by (simp add: fileWrite_def)
  next
    case (Some p)
    with None assms have "fileWrite_checked
        (hook\<lparr>fls := (fls hook)(Level e \<mapsto> \<lparr>fd = None, path = p, ln = 0\<rparr>)\<rparr>) e
        \<lparr>fd = None, path = p, ln = 0\<rparr> (os_MkdirAll_Dir s p) = Some (r, hook', s')"
      by (simp add: fileWrite_def Let_def)
    from fileWrite_checked_rest [OF this]
    have "hook'\<lparr>fls := (fls hook)(Level e \<mapsto> \<lparr>fd = None, path = p, ln = 0\<rparr>)\<rparr>
        = hook\<lparr>fls := (fls hook)(Level e \<mapsto> \<lparr>fd = None, path = p, ln = 0\<rparr>)\<rparr>"
      by simp
    then have "hook'\<lparr>fls := (fls hook)(Level e \<mapsto> \<lparr>fd = None, path = p, ln = 0\<rparr>)\<rparr>\<lparr>fls := fls hook\<rparr>
        = hook\<lparr>fls := (fls hook)(Level e \<mapsto> \<lparr>fd = None, path = p, ln = 0\<rparr>)\<rparr>\<lparr>fls := fls hook\<rparr>"
      by (rule arg_cong)
    then show ?thesis by simp
  qed
qed

lemma fileWrite_checked_sinks:
  "fileWrite_checked hook e fe s = Some (r, hook', s') \<Longrightarrow> sinks s' = sinks s"
  unfolding fileWrite_checked_def
  by (auto simp: log_Println_def fd_Write_def Let_def dest!: fileCheck_sinks
      split: option.splits sum.splits prod.splits)

lemma fileWrite_sinks: "fileWrite hook e s = Some (r, hook', s') \<Longrightarrow> sinks s' = sinks s"
  unfolding fileWrite_def
  by (auto simp: Let_def os_MkdirAll_Dir_def dest!: fileWrite_checked_sinks split: option.splits)

lemma ioWrite_files:
  "ioWrite hook e s = (r, s') \<Longrightarrow> names s' = names s \<and> data s' = data s \<and> fresh s' = fresh s"
  unfolding ioWrite_def
  by (auto simp: log_Println_def writer_Write_def split: option.splits sum.splits if_splits)

subsection \<open>One strategy for each call\<close>

lemma SetFormatter_modes:
  "paths (SetFormatter df h fm) = paths h" "writers (SetFormatter df h fm) = writers h"
  "hasDefaultPath (SetFormatter df h fm) = hasDefaultPath h"
  "hasDefaultWriter (SetFormatter df h fm) = hasDefaultWriter h"
  by (simp_all add: SetFormatter_def split: option.splits formatter.splits)

lemma NewLfsHook_modes:
  "case NewLfsHook df out fm maxsz of
     Return h \<Rightarrow> \<not> (sinkMode h \<and> pathConfigured h)
   | Panic \<Rightarrow> True"
  by (cases out)
    (simp_all add: NewLfsHook_def Let_def SetFormatter_modes sinkMode_def pathConfigured_def
      SetDefaultPath_def SetDefaultWriter_def if_distrib [where f = paths]
      if_distrib [where f = writers] if_distrib [where f = hasDefaultPath]
      if_distrib [where f = hasDefaultWriter])

lemma NewLfsHook_one_mode:
  "NewLfsHook df out fm maxsz = Return h \<Longrightarrow> \<not> (sinkMode h \<and> pathConfigured h)"
  using NewLfsHook_modes [of df out fm maxsz] by simp

lemma Fire_small_log:
  "Fire path_hook hello small_log
     = Some (Return None,
         path_hook\<lparr>fls := [InfoLevel \<mapsto> \<lparr>fd = Some 0, path = ''app.log'', ln = 8\<rparr>]\<rparr>,
         small_log\<lparr>data := (\<lambda>_. [])(0 := ''abchello'')\<rparr>)"
proof -
  have "fileCheck (path_hook\<lparr>fls := [InfoLevel \<mapsto> \<lparr>fd = None, path = ''app.log'', ln = 0\<rparr>]\<rparr>)
          \<lparr>fd = None, path = ''app.log'', ln = 0\<rparr> small_log
      = Some (None, \<lparr>fd = Some 0, path = ''app.log'', ln = 3\<rparr>, small_log)"
    by (simp add: fileCheck_closed startLen_def os_Stat_def os_OpenFile_def world_fields
        path_hook_fields fileCheck_within [of _ 0])
  then show ?thesis
    by (simp add: Fire_def fileWrite_def fileWrite_checked_def Let_def resolvePath_def map_get_def
        os_MkdirAll_Dir_def hello_def path_hook_fields plain_formatter_def fd_Write_def
        small_log_def empty_world_def fun_eq_iff)
qed

subsection \<open>The tracked length\<close>

lemma fileCheck_deny_stat:
  "fileCheck c fe s = Some (r, fe', s') \<Longrightarrow> deny_stat s' = deny_stat s"
  by (drule fileCheck_frame) auto

lemma fileCheck_tracked:
  assumes "fileCheck c fe s = Some r"
  shows "(\<forall>p. \<not> deny_stat s p) \<longrightarrow> tracked_fe fe s \<longrightarrow> tracked_fe (fst (snd r)) (snd (snd r))"
proof (rule fileCheck.raw_induct [where P = "\<lambda>c fe s r.
      (\<forall>p. \<not> deny_stat s p) \<longrightarrow> tracked_fe fe s \<longrightarrow> tracked_fe (fst (snd r)) (snd (snd r))",
      OF _ assms], goal_cases)
  case (1 f c fe s r)
  note IH = 1(1) and step = 1(2)
  show ?case
  proof (intro impI)
    assume st: "\<forall>p. \<not> deny_stat s p" and tr: "tracked_fe fe s"
    show "tracked_fe (fst (snd r)) (snd (snd r))"
    proof (cases "fd fe")
      case None
      obtain o1 s1 where op: "os_OpenFile s (path fe) = (o1, s1)"
        by (cases "os_OpenFile s (path fe)")
      show ?thesis
      proof (cases o1)
        case (Inl err)
        with op None step have "fd (fst (snd r)) = None"
          by (auto simp: Let_def split: stat_result.splits)
        then show ?thesis by (simp add: tracked_fe_def)
      next
        case (Inr fl)
        let ?fe = "fe\<lparr>ln := startLen s (path fe), fd := Some fl\<rparr>"
        from Inr op None step have run: "f c ?fe s1 = Some r"
          by (simp add: startLen_def Let_def split: stat_result.splits)
        have st1: "\<forall>p. \<not> deny_stat s1 p"
          using op st by (auto simp: os_OpenFile_def split: if_splits option.splits)
        have "tracked_fe ?fe s1"
        proof (cases "names s (path fe)")
          case None
          with op Inr st show ?thesis
            by (auto simp: tracked_fe_def os_OpenFile_def startLen_absent split: if_splits)
        next
          case (Some i)
          with op Inr st show ?thesis
            by (auto simp: tracked_fe_def os_OpenFile_def startLen_present split: if_splits)
        qed
        with IH [OF run] st1 show ?thesis by simp
      qed
    next
      case (Some i)
      show ?thesis
      proof (cases "FdMaxSize c < ln fe")
        case True
        with Some step have run: "f c (fe\<lparr>fd := None\<rparr>) (rollOver c s (path fe)) = Some r"
          by (simp add: Let_def)
        obtain n0 where "rollOver c s (path fe) = s\<lparr>names := n0\<rparr>"
          using rollOver_names_only by blast
        with st have "\<forall>p. \<not> deny_stat (rollOver c s (path fe)) p" by simp
        with IH [OF run] show ?thesis by (simp add: tracked_fe_def)
      next
        case False
        with Some step tr show ?thesis by auto
      qed
    qed
  qed
qed

lemma fd_Write_tracked:
  assumes "fd fe = Some i" and "tracked_fe fe s" and "fd_Write s i msg = (n, err, s')"
  shows "tracked_fe (fe\<lparr>ln := ln fe + int n\<rparr>) s' \<and> deny_stat s' = deny_stat s"
  using assms
  by (auto simp: tracked_fe_def fd_Write_def Let_def split: option.splits)

lemma fileWrite_checked_tracked:
  assumes "fileWrite_checked hook e fe s = Some (r, hook', s')"
    and "\<forall>p. \<not> deny_stat s p" and "tracked_fe fe s"
  shows "tracked hook' (Level e) s' \<and> (\<forall>p. \<not> deny_stat s' p)"
proof -
  obtain r1 fe1 s1 where chk: "fileCheck hook fe s = Some (r1, fe1, s1)"
    using assms(1) by (cases "fileCheck hook fe s") (auto simp: fileWrite_checked_def)
  from fileCheck_tracked [OF chk] assms(2,3) have t1: "tracked_fe fe1 s1" by simp
  from fileCheck_deny_stat [OF chk] assms(2) have d1: "\<forall>p. \<not> deny_stat s1 p" by simp
  show ?thesis
  proof (cases r1)
    case (Some err)
    with chk assms(1) t1 d1 show ?thesis
      by (auto simp: fileWrite_checked_def tracked_def)
  next
    case None
    show ?thesis
    proof (cases "Format (formatter hook) e")
      case (Inl err)
      with None chk assms(1) t1 d1 show ?thesis
        by (auto simp: fileWrite_checked_def tracked_def tracked_fe_def log_Println_def
            split: option.splits)
    next
      case (Inr msg)
      show ?thesis
      proof (cases "fd fe1")
        case nofd: None
        with Inr None chk assms(1) d1 show ?thesis
          by (auto simp: fileWrite_checked_def tracked_def tracked_fe_def)
      next
        case (Some i)
        obtain n err s2 where w: "fd_Write s1 i msg = (n, err, s2)"
          by (cases "fd_Write s1 i msg") auto
        from fd_Write_tracked [OF Some t1 w] d1
        have "tracked_fe (fe1\<lparr>ln := ln fe1 + int n\<rparr>) s2" "\<forall>p. \<not> deny_stat s2 p"
          by simp_all
        with Some w Inr None chk assms(1) show ?thesis
          by (auto simp: fileWrite_checked_def tracked_def)
      qed
    qed
  qed
qed

lemma Fire_tracked:
  assumes "Fire hook e s = Some (r, hook', s')"
    and "\<forall>p. \<not> deny_stat s p" and "tracked hook (Level e) s"
  shows "tracked hook' (Level e) s' \<and> (\<forall>p. \<not> deny_stat s' p)"
proof (cases "sinkMode hook")
  case True
  obtain r0 s0 where io: "ioWrite hook e s = (r0, s0)" by (cases "ioWrite hook e s")
  have "deny_stat s0 = deny_stat s"
    using io unfolding ioWrite_def
    by (auto simp: log_Println_def writer_Write_def split: option.splits sum.splits if_splits)
  with True io assms ioWrite_files [OF io] show ?thesis
    by (auto simp: Fire_def sinkMode_def tracked_def tracked_fe_def split: option.splits)
next
  case False
  show ?thesis
  proof (cases "pathConfigured hook")
    case no: False
    with False assms show ?thesis
      by (auto simp: Fire_def sinkMode_def pathConfigured_def)
  next
    case True
    with False assms(1) have fw: "fileWrite hook e s = Some (r, hook', s')"
      by (simp add: Fire_def sinkMode_def pathConfigured_def)
    show ?thesis
    proof (cases "handleOf hook (Level e)")
      case None
      with fw assms(2,3) show ?thesis
        by (auto simp: fileWrite_handleOf)
    next
      case (Some fe)
      with fw have c: "fileWrite_checked (hook\<lparr>fls := (fls hook)(Level e \<mapsto> fe)\<rparr>) e fe s
          = Some (r, hook', s')"
        by (simp add: fileWrite_handleOf)
      from Some assms(3) have "tracked_fe fe s"
        by (auto simp: handleOf_def tracked_def tracked_fe_def split: option.splits)
      from fileWrite_checked_tracked [OF c assms(2) this] show ?thesis .
    qed
  qed
qed

text \<open>
  A write through an open handle within the limit adds to the tracked length the number of
  bytes the write stored, which is less than the length of the message when the device
  runs out of space.
\<close>

lemma Fire_write_step:
  assumes "\<not> sinkMode hook" and "pathConfigured hook"
    and "fls hook (Level e) = Some fe" and "fd fe = Some i" and "ln fe \<le> FdMaxSize hook"
    and "Format (formatter hook) e = Inr msg"
  shows "Fire hook e s
     = Some (Return None,
         hook\<lparr>fls := (fls hook)(Level e \<mapsto> fe\<lparr>ln := ln fe + int (fst (fd_Write s i msg))\<rparr>)\<rparr>,
         snd (snd (fd_Write s i msg)))
    \<and> fst (fd_Write s i msg) = (case free s of None \<Rightarrow> length msg | Some k \<Rightarrow> min k (length msg))"
  using assms
  by (simp add: Fire_def sinkMode_def pathConfigured_def fileWrite_def fileWrite_checked_def
      fileCheck_within [of fe i] fd_Write_def Let_def split: prod.splits)

text \<open>
  When all the writes of a sequence are of one level, and \<open>os.Stat\<close> is not refused,
  a handle whose tracked length is the length of its file keeps it so.
\<close>

lemma single_level_length_is_file_length:
  assumes "\<forall>e \<in> set es. Level e = l" and "\<forall>p. \<not> deny_stat s p"
    and "tracked hook l s" and "Fire_all hook es s = Some (hook', s')"
  shows "tracked hook' l s'"
  using assms
proof (induction es arbitrary: hook s)
  case Nil
  then show ?case by simp
next
  case (Cons e es)
  from Cons.prems(4) obtain r h1 s1 where f1: "Fire hook e s = Some (r, h1, s1)"
    and rest: "Fire_all h1 es s1 = Some (hook', s')"
    by (auto split: option.splits)
  from Cons.prems(1) have le: "Level e = l" and les: "\<forall>e \<in> set es. Level e = l"
    by simp_all
  from Fire_tracked [OF f1 Cons.prems(2)] Cons.prems(3) le
  have "tracked h1 l s1" "\<forall>p. \<not> deny_stat s1 p"
    by simp_all
  with Cons.IH [OF les _ _ rest] show ?case by blast
qed

lemma Fire_tight_log_1:
  "Fire path_hook hello tight_log
     = Some (Return None,
         path_hook\<lparr>fls := [InfoLevel \<mapsto> \<lparr>fd = Some 0, path = ''app.log'', ln = 8\<rparr>]\<rparr>,
         tight_log\<lparr>data := (\<lambda>_. [])(0 := ''abchello''), free := Some 2\<rparr>)"
  by (simp add: Fire_def fileWrite_def fileWrite_checked_def Let_def resolvePath_def map_get_def
        os_MkdirAll_Dir_def hello_def path_hook_fields plain_formatter_def fd_Write_def
        fileCheck.simps os_Stat_def os_OpenFile_def
        tight_log_def small_log_def empty_world_def fun_eq_iff)

lemma Fire_tight_log_2:
  "Fire (path_hook\<lparr>fls := [InfoLevel \<mapsto> \<lparr>fd = Some 0, path = ''app.log'', ln = 8\<rparr>]\<rparr>) hello
       (tight_log\<lparr>data := (\<lambda>_. [])(0 := ''abchello''), free := Some 2\<rparr>)
     = Some (Return None,
         path_hook\<lparr>fls := [InfoLevel \<mapsto> \<lparr>fd = Some 1, path = ''app.log'', ln = 2\<rparr>]\<rparr>,
         tight_log\<lparr>names := [''app.log.1'' \<mapsto> 0, ''app.log'' \<mapsto> 1],
           data := (\<lambda>_. [])(0 := ''abchello'', 1 := ''he''), fresh := 2, free := Some 0\<rparr>)"
  by (simp add: Fire_def fileWrite_def fileWrite_checked_def Let_def resolvePath_def map_get_def
        os_MkdirAll_Dir_def hello_def path_hook_fields plain_formatter_def fd_Write_def
        fileCheck.simps os_Stat_def os_OpenFile_def rollOver_def fileBakLen_def
        fileBakLen_loop.simps [of _ _ _ 1] bak_app_log os_Rename_def
        tight_log_def small_log_def empty_world_def fun_eq_iff)

lemma Fire_all_tight_log:
  "Fire_all path_hook [hello, hello] tight_log
     = Some (path_hook\<lparr>fls := [InfoLevel \<mapsto> \<lparr>fd = Some 1, path = ''app.log'', ln = 2\<rparr>]\<rparr>,
         tight_log\<lparr>names := [''app.log.1'' \<mapsto> 0, ''app.log'' \<mapsto> 1],
           data := (\<lambda>_. [])(0 := ''abchello'', 1 := ''he''), fresh := 2, free := Some 0\<rparr>)"
  by (simp add: Fire_tight_log_1 Fire_tight_log_2)

subsection \<open>Backup names are distinct\<close>

lemma digit_code: "d < 10 \<Longrightarrow> (of_char (digit_char d) :: nat) = 48 + d"
  by (simp add: digit_char_def)

lemma undecimal_decimal: "undecimal (decimal n) = n"
proof (induction n rule: decimal.induct)
  case (1 n)
  show ?case
  proof (cases "n < 10")
    case True
    then show ?thesis
      by (subst decimal.simps) (simp add: undecimal_def digit_code)
  next
    case False
    with 1 have "undecimal (decimal (n div 10)) = n div 10" by simp
    with False show ?thesis
      by (subst decimal.simps) (simp add: undecimal_def digit_code)
  qed
qed

lemma decimal_no_minus: "CHR ''-'' \<notin> set (decimal n)"
proof (induction n rule: decimal.induct)
  case (1 n)
  have digit: "digit_char d \<noteq> CHR ''-'' \<and> CHR ''-'' \<noteq> digit_char d" if "d < 10" for d
  proof -
    have "digit_char d \<noteq> CHR ''-''"
    proof
      assume "digit_char d = CHR ''-''"
      then have "(of_char (digit_char d) :: nat) = of_char (CHR ''-'')" by simp
      with that show False by (simp add: digit_code)
    qed
    then show ?thesis by auto
  qed
  show ?case
  proof (cases "n < 10")
    case True
    then show ?thesis
      by (subst decimal.simps) (simp add: digit)
  next
    case False
    with 1 have "CHR ''-'' \<notin> set (decimal (n div 10))" by simp
    with False show ?thesis
      by (subst decimal.simps) (simp add: digit)
  qed
qed

lemma itoa_inj: "itoa i = itoa j \<Longrightarrow> i = j"
proof -
  assume eq: "itoa i = itoa j"
  have neg_pos: False if "itoa a = itoa b" "a < 0" "\<not> b < 0" for a b
  proof -
    from that have "CHR ''-'' # decimal (nat (- a)) = decimal (nat b)"
      by (simp add: itoa_def)
    then have "set (CHR ''-'' # decimal (nat (- a))) = set (decimal (nat b))"
      by simp
    then have "CHR ''-'' \<in> set (decimal (nat b))"
      by auto
    with decimal_no_minus show False by blast
  qed
  show ?thesis
  proof (cases "i < 0")
    case True
    show ?thesis
    proof (cases "j < 0")
      case j: True
      with True eq have "decimal (nat (- i)) = decimal (nat (- j))"
        by (simp add: itoa_def)
      then have "undecimal (decimal (nat (- i))) = undecimal (decimal (nat (- j)))" by simp
      with True j show ?thesis by (simp add: undecimal_decimal)
    next
      case False
      with neg_pos [OF eq True] show ?thesis by simp
    qed
  next
    case False
    show ?thesis
    proof (cases "j < 0")
      case True
      with neg_pos [OF eq [symmetric] True] False show ?thesis by simp
    next
      case j: False
      with False eq have "decimal (nat i) = decimal (nat j)"
        by (simp add: itoa_def)
      then have "undecimal (decimal (nat i)) = undecimal (decimal (nat j))" by simp
      with False j show ?thesis by (simp add: undecimal_decimal)
    qed
  qed
qed

lemma bak_inj [simp]: "bak p i = bak p j \<longleftrightarrow> i = j"
  by (auto simp: bak_def dest: itoa_inj)

subsection \<open>Counting and moving the backups\<close>

lemma os_Stat_present: "\<not> deny_stat s q \<Longrightarrow> os_Stat s q \<noteq> StatNotExist \<longleftrightarrow> names s q \<noteq> None"
  by (simp add: os_Stat_def split: option.splits)

lemma fileBakLen_loop_count:
  assumes "\<And>j. i \<le> j \<Longrightarrow> j < i + int k \<Longrightarrow> os_Stat s (bak p j) \<noteq> StatNotExist"
    and "i + int k = m + 1 \<or> (i + int k \<le> m \<and> os_Stat s (bak p (i + int k)) = StatNotExist)"
  shows "fileBakLen_loop m s p i n = n + int k"
  using assms
proof (induction k arbitrary: i n)
  case 0
  then show ?case
    by (subst fileBakLen_loop.simps) auto
next
  case (Suc k)
  from Suc.prems(2) have le: "i \<le> m" by auto
  from Suc.prems(1) [of i] have here: "os_Stat s (bak p i) \<noteq> StatNotExist" by simp
  have "fileBakLen_loop m s p (i + 1) (n + 1) = n + 1 + int k"
  proof (rule Suc.IH)
    fix j assume "i + 1 \<le> j" "j < i + 1 + int k"
    then show "os_Stat s (bak p j) \<noteq> StatNotExist"
      using Suc.prems(1) [of j] by simp
  next
    from Suc.prems(2)
    show "i + 1 + int k = m + 1 \<or> (i + 1 + int k \<le> m \<and> os_Stat s (bak p (i + 1 + int k)) = StatNotExist)"
      by (simp add: add.commute add.left_commute)
  qed
  with le here show ?case
    by (subst fileBakLen_loop.simps) simp
qed

text \<open>Renaming into a vacant name, whether or not the source exists.\<close>

lemma os_Rename_vacant:
  assumes "\<not> deny_rename s a" and "names s b = None" and "a \<noteq> b"
  shows "names (snd (os_Rename s a b)) = (names s)(b := names s a, a := None)"
  using assms by (auto simp: os_Rename_def fun_eq_iff split: option.splits)

lemma os_Rename_deny_rename [simp]: "deny_rename (snd (os_Rename s a b)) = deny_rename s"
proof -
  obtain n where "snd (os_Rename s a b) = s\<lparr>names := n\<rparr>" using os_Rename_names_only by blast
  then show ?thesis by simp
qed

lemma fileBakMove_loop_shift:
  assumes "\<forall>q. \<not> deny_rename s q" and "names s (bak p i) = None"
  shows "(\<forall>j. i \<le> j \<and> j < m \<longrightarrow> names (fileBakMove_loop m s p i) (bak p j) = names s (bak p (j + 1)))
       \<and> (i \<le> m \<longrightarrow> names (fileBakMove_loop m s p i) (bak p m) = None)
       \<and> (\<forall>j. j < i \<or> m < j \<longrightarrow> names (fileBakMove_loop m s p i) (bak p j) = names s (bak p j))"
  using assms
proof (induction m s p i rule: fileBakMove_loop.induct)
  case (1 m s p i)
  show ?case
  proof (cases "i < m")
    case False
    with 1(3) show ?thesis
      by (subst (1 2 3) fileBakMove_loop.simps) auto
  next
    case True
    let ?s1 = "snd (os_Rename s (bak p (i + 1)) (bak p i))"
    have n1: "names ?s1 = (names s)(bak p i := names s (bak p (i + 1)), bak p (i + 1) := None)"
      using 1(2,3) by (intro os_Rename_vacant) simp_all
    have d1: "\<forall>q. \<not> deny_rename ?s1 q" using 1(2) by simp
    have v1: "names ?s1 (bak p (i + 1)) = None" by (simp add: n1)
    note IH = 1(1) [OF True d1 v1]
    have unfold: "fileBakMove_loop m s p i = fileBakMove_loop m ?s1 p (i + 1)"
      using True by (subst fileBakMove_loop.simps) simp
    show ?thesis
    proof (intro conjI allI impI)
      fix j assume j: "i \<le> j \<and> j < m"
      show "names (fileBakMove_loop m s p i) (bak p j) = names s (bak p (j + 1))"
      proof (cases "j = i")
        case True
        with IH have "names (fileBakMove_loop m ?s1 p (i + 1)) (bak p j) = names ?s1 (bak p j)"
          by simp
        with True show ?thesis by (simp add: unfold n1)
      next
        case False
        with j IH have "names (fileBakMove_loop m ?s1 p (i + 1)) (bak p j) = names ?s1 (bak p (j + 1))"
          by simp
        with False j show ?thesis by (simp add: unfold n1)
      qed
    next
      assume "i \<le> m"
      with True IH show "names (fileBakMove_loop m s p i) (bak p m) = None"
        by (simp add: unfold)
    next
      fix j assume j: "j < i \<or> m < j"
      with True IH have "names (fileBakMove_loop m ?s1 p (i + 1)) (bak p j) = names ?s1 (bak p j)"
        by auto
      with j True show "names (fileBakMove_loop m s p i) (bak p j) = names s (bak p j)"
        by (auto simp: unfold n1)
    qed
  qed
qed

lemma healthy_names_only: "healthy (s\<lparr>names := n\<rparr>) = healthy s"
  by (simp add: healthy_def)

lemma rollOver_healthy: "healthy (rollOver c s p) = healthy s"
proof -
  obtain n where "rollOver c s p = s\<lparr>names := n\<rparr>" using rollOver_names_only by blast
  then show ?thesis by (simp add: healthy_names_only)
qed

lemma chain_names:
  "chain m s p ys \<Longrightarrow> names s (bak p j) \<noteq> None \<longleftrightarrow> 1 \<le> j \<and> j \<le> int (length ys)"
proof -
  assume "chain m s p ys"
  then have "content s (bak p j) = (if 1 \<le> j \<and> j \<le> int (length ys) then Some (ys ! nat (j - 1)) else None)"
    by (simp add: chain_def)
  then show ?thesis
    by (cases "names s (bak p j)") (auto simp: content_def split: if_splits)
qed

lemma fileBakLen_chain:
  assumes "healthy s" and "chain (FdMaxLen c) s p ys"
  shows "fileBakLen c s p = int (length ys)"
proof -
  have stat: "os_Stat s q \<noteq> StatNotExist \<longleftrightarrow> names s q \<noteq> None" for q
    using assms(1) by (simp add: os_Stat_present healthy_def)
  have le: "int (length ys) \<le> FdMaxLen c"
    using assms(2) by (simp add: chain_def)
  have "fileBakLen_loop (FdMaxLen c) s p 1 0 = 0 + int (length ys)"
  proof (rule fileBakLen_loop_count)
    fix j :: int assume "1 \<le> j" "j < 1 + int (length ys)"
    then show "os_Stat s (bak p j) \<noteq> StatNotExist"
      using chain_names [OF assms(2), of j] by (simp add: stat)
  next
    show "1 + int (length ys) = FdMaxLen c + 1 \<or>
        (1 + int (length ys) \<le> FdMaxLen c \<and> os_Stat s (bak p (1 + int (length ys))) = StatNotExist)"
    proof (cases "int (length ys) = FdMaxLen c")
      case True
      then show ?thesis by simp
    next
      case False
      with le have lt: "1 + int (length ys) \<le> FdMaxLen c" by simp
      have "names s (bak p (1 + int (length ys))) = None"
        using chain_names [OF assms(2), of "1 + int (length ys)"] by simp
      with stat [of "bak p (1 + int (length ys))"] lt show ?thesis by simp
    qed
  qed
  then show ?thesis by (simp add: fileBakLen_def)
qed

text \<open>The names after a roll-over, when the chain has room and when it is full.\<close>

lemma rollOver_names_room:
  assumes "healthy s" and "chain (FdMaxLen c) s p ys" and "int (length ys) < FdMaxLen c"
  shows "names (rollOver c s p)
     = (names s)(bak p (int (length ys) + 1) := names s p, p := None)"
proof -
  have vac: "names s (bak p (int (length ys) + 1)) = None"
    using chain_names [OF assms(2), of "int (length ys) + 1"] by simp
  have "names (snd (os_Rename s p (bak p (int (length ys) + 1))))
      = (names s)(bak p (int (length ys) + 1) := names s p, p := None)"
    using assms(1) vac by (intro os_Rename_vacant) (simp_all add: healthy_def)
  with assms(3) show ?thesis
    by (simp add: rollOver_def fileBakLen_chain [OF assms(1,2)])
qed

lemma fileBakMove_names:
  assumes "healthy s" and "1 \<le> FdMaxLen c"
  shows "names (fileBakMove c s p) q =
           (if q = bak p (FdMaxLen c) then None
            else if \<exists>j. 1 \<le> j \<and> j < FdMaxLen c \<and> q = bak p j
                 then names s (bak p ((THE j. q = bak p j) + 1))
                 else names s q)"
proof -
  let ?m = "FdMaxLen c"
  let ?s1 = "os_RemoveAll s (bak p 1)"
  have n1: "names ?s1 = (names s)(bak p 1 := None)"
    using assms(1) by (simp add: os_RemoveAll_def healthy_def)
  have d1: "\<forall>q. \<not> deny_rename ?s1 q"
    using assms(1) by (simp add: os_RemoveAll_def healthy_def)
  have v1: "names ?s1 (bak p 1) = None" by (simp add: n1)
  note sh = fileBakMove_loop_shift [OF d1 v1, of ?m]
  show ?thesis
  proof (cases "\<exists>j. q = bak p j")
    case False
    then have "\<And>j. q \<noteq> bak p j" by blast
    then have "names (fileBakMove c s p) q = names ?s1 q"
      by (simp add: fileBakMove_def fileBakMove_loop_other)
    with False show ?thesis by (auto simp: n1)
  next
    case True
    then obtain j where q: "q = bak p j" by blast
    have the: "(THE j'. bak p j = bak p j') = j" by simp
    consider "j = ?m" | "1 \<le> j" "j < ?m" | "j < 1" | "?m < j" by linarith
    then show ?thesis
    proof cases
      case 1
      with sh assms(2) q show ?thesis by (simp add: fileBakMove_def)
    next
      case 2
      with sh have "names (fileBakMove c s p) (bak p j) = names ?s1 (bak p (j + 1))"
        by (simp add: fileBakMove_def)
      with 2 q the show ?thesis by (auto simp: n1)
    next
      case 3
      with sh have "names (fileBakMove c s p) (bak p j) = names ?s1 (bak p j)"
        by (simp add: fileBakMove_def)
      with 3 assms(2) q show ?thesis by (auto simp: n1)
    next
      case 4
      with sh have "names (fileBakMove c s p) (bak p j) = names ?s1 (bak p j)"
        by (simp add: fileBakMove_def)
      with 4 assms(2) q show ?thesis by (auto simp: n1)
    qed
  qed
qed

lemma rollOver_names_full:
  assumes "healthy s" and "chain (FdMaxLen c) s p ys" and "int (length ys) = FdMaxLen c"
    and "1 \<le> FdMaxLen c"
  shows "names (rollOver c s p) p = None"
    and "names (rollOver c s p) (bak p j) =
           (if j = FdMaxLen c then names s p
            else if 1 \<le> j \<and> j < FdMaxLen c then names s (bak p (j + 1))
            else names s (bak p j))"
proof -
  let ?m = "FdMaxLen c"
  let ?s2 = "fileBakMove c s p"
  have vac: "names ?s2 (bak p ?m) = None"
    using fileBakMove_names [OF assms(1,4), of p "bak p ?m"] by simp
  have dr: "\<not> deny_rename ?s2 p"
    using assms(1) by (simp add: fileBakMove_deny_rename healthy_def)
  have n3: "names (snd (os_Rename ?s2 p (bak p ?m))) = (names ?s2)(bak p ?m := names ?s2 p, p := None)"
    using dr vac by (intro os_Rename_vacant) simp_all
  have ro: "rollOver c s p = snd (os_Rename ?s2 p (bak p ?m))"
    using assms(3) by (simp add: rollOver_def fileBakLen_chain [OF assms(1,2)])
  show "names (rollOver c s p) p = None"
    by (simp add: ro n3)
  have the: "(THE j'. bak p j = bak p j') = j" by simp
  show "names (rollOver c s p) (bak p j) =
           (if j = ?m then names s p
            else if 1 \<le> j \<and> j < ?m then names s (bak p (j + 1))
            else names s (bak p j))"
    using the by (auto simp: ro n3 fileBakMove_base fileBakMove_names [OF assms(1,4)])
qed

subsection \<open>One rotation, and a sequence of rotations\<close>

lemma lastn_short: "int (length zs) \<le> m \<Longrightarrow> lastn m zs = zs"
  by (simp add: lastn_def)

lemma lastn_lastn: "lastn m (lastn m zs @ cs) = lastn m (zs @ cs)"
proof (cases "length zs \<le> nat m")
  case True
  then show ?thesis by (simp add: lastn_def)
next
  case False
  then show ?thesis
    by (cases "length cs \<le> nat m") (simp_all add: lastn_def add.commute)
qed

lemma length_lastn: "0 \<le> m \<Longrightarrow> int (length (lastn m zs)) = min (int (length zs)) m"
  by (simp add: lastn_def)

lemma rollOver_chain:
  assumes "healthy s" and "1 \<le> FdMaxLen c" and "chain (FdMaxLen c) s p ys"
    and "content s p = Some x"
  shows "chain (FdMaxLen c) (rollOver c s p) p (lastn (FdMaxLen c) (ys @ [x]))"
proof (cases "int (length ys) < FdMaxLen c")
  case True
  then have ln: "lastn (FdMaxLen c) (ys @ [x]) = ys @ [x]"
    by (simp add: lastn_def)
  have c: "content s (bak p j) = (if 1 \<le> j \<and> j \<le> int (length ys) then Some (ys ! nat (j - 1)) else None)" for j
    using assms(3) by (simp add: chain_def)
  have "content (rollOver c s p) (bak p j)
      = (if 1 \<le> j \<and> j \<le> int (length (ys @ [x])) then Some ((ys @ [x]) ! nat (j - 1)) else None)" for j
  proof (cases "j = int (length ys) + 1")
    case j: True
    with assms(4) show ?thesis
      by (simp add: content_def rollOver_names_room [OF assms(1,3) True] nat_add_distrib)
  next
    case False
    have "content (rollOver c s p) (bak p j) = content s (bak p j)"
      using False by (simp add: content_def rollOver_names_room [OF assms(1,3) True])
    with False c [of j] show ?thesis
      by (auto simp: nth_append nat_less_iff)
  qed
  with True show ?thesis
    by (simp add: chain_def ln)
next
  case False
  with assms(3) have full: "int (length ys) = FdMaxLen c"
    by (simp add: chain_def)
  with assms(2) have ne: "ys \<noteq> []" by auto
  have ln: "lastn (FdMaxLen c) (ys @ [x]) = tl ys @ [x]"
  proof -
    obtain a list where ys: "ys = a # list" using ne by (cases ys) auto
    with full have "nat (FdMaxLen c) = Suc (length list)" by simp
    with ys show ?thesis by (simp add: lastn_def)
  qed
  have len: "int (length (tl ys @ [x])) = FdMaxLen c"
    using full ne by (cases ys) simp_all
  have c: "content s (bak p j) = (if 1 \<le> j \<and> j \<le> int (length ys) then Some (ys ! nat (j - 1)) else None)" for j
    using assms(3) by (simp add: chain_def)
  have "content (rollOver c s p) (bak p j)
      = (if 1 \<le> j \<and> j \<le> FdMaxLen c then Some ((tl ys @ [x]) ! nat (j - 1)) else None)" for j
  proof -
    consider "j = FdMaxLen c" | "1 \<le> j" "j < FdMaxLen c" | "j < 1" | "FdMaxLen c < j" by linarith
    then show ?thesis
    proof cases
      case 1
      have "nat (j - 1) = length (tl ys)"
        using 1 full ne by (cases ys) simp_all
      with 1 assms(2,4) show ?thesis
        by (simp add: content_def rollOver_names_full(2) [OF assms(1,3) full assms(2)] nth_append)
    next
      case 2
      then have "content (rollOver c s p) (bak p j) = content s (bak p (j + 1))"
        by (simp add: content_def rollOver_names_full(2) [OF assms(1,3) full assms(2)])
      also have "\<dots> = Some (ys ! nat j)"
        using 2 full c [of "j + 1"] by simp
      also have "ys ! nat j = (tl ys @ [x]) ! nat (j - 1)"
      proof -
        have "nat (j - 1) < length (tl ys)" using 2 full ne by (cases ys) auto
        moreover have "nat j = Suc (nat (j - 1))" using 2 by simp
        ultimately show ?thesis
          using ne by (cases ys) (simp_all add: nth_append)
      qed
      finally show ?thesis using 2 by simp
    next
      case 3
      then have "content (rollOver c s p) (bak p j) = content s (bak p j)"
        using assms(2) by (simp add: content_def rollOver_names_full(2) [OF assms(1,3) full assms(2)])
      with 3 c [of j] show ?thesis by simp
    next
      case 4
      then have "content (rollOver c s p) (bak p j) = content s (bak p j)"
        using assms(2) by (simp add: content_def rollOver_names_full(2) [OF assms(1,3) full assms(2)])
      with 4 full c [of j] show ?thesis by simp
    qed
  qed
  with len show ?thesis
    by (simp add: chain_def ln)
qed

lemma rollOver_base_gone:
  assumes "healthy s" and "1 \<le> FdMaxLen c" and "chain (FdMaxLen c) s p ys"
  shows "names (rollOver c s p) p = None"
proof (cases "int (length ys) < FdMaxLen c")
  case True
  then show ?thesis
    by (simp add: rollOver_names_room [OF assms(1,3) True])
next
  case False
  with assms(3) have "int (length ys) = FdMaxLen c" by (simp add: chain_def)
  from rollOver_names_full(1) [OF assms(1,3) this assms(2)] show ?thesis .
qed

lemma os_Rename_ran:
  "names (snd (os_Rename s a b)) q = Some i \<Longrightarrow> \<exists>q'. names s q' = Some i"
  by (auto simp: os_Rename_def split: option.splits if_splits)

lemma os_RemoveAll_ran:
  "names (os_RemoveAll s a) q = Some i \<Longrightarrow> \<exists>q'. names s q' = Some i"
  by (auto simp: os_RemoveAll_def split: if_splits)

lemma fileBakMove_loop_ran:
  "names (fileBakMove_loop m s p i) q = Some v \<Longrightarrow> \<exists>q'. names s q' = Some v"
proof (induction m s p i arbitrary: q rule: fileBakMove_loop.induct)
  case (1 m s p i)
  show ?case
  proof (cases "i < m")
    case True
    with 1(2) have "names (fileBakMove_loop m (snd (os_Rename s (bak p (i + 1)) (bak p i))) p (i + 1)) q = Some v"
      by (subst (asm) fileBakMove_loop.simps) simp
    from 1(1) [OF True this] obtain q' where
      "names (snd (os_Rename s (bak p (i + 1)) (bak p i))) q' = Some v" by blast
    then show ?thesis by (rule os_Rename_ran)
  next
    case False
    with 1(2) show ?thesis
      by (subst (asm) fileBakMove_loop.simps) auto
  qed
qed

lemma rollOver_ran:
  assumes "names (rollOver c s p) q = Some i"
  shows "\<exists>q'. names s q' = Some i"
proof (cases "FdMaxLen c \<le> fileBakLen c s p")
  case True
  with assms have "names (snd (os_Rename (fileBakMove c s p) p (bak p (fileBakLen c s p)))) q = Some i"
    by (simp add: rollOver_def)
  then obtain q1 where "names (fileBakMove c s p) q1 = Some i"
    using os_Rename_ran by blast
  then obtain q2 where "names (os_RemoveAll s (bak p 1)) q2 = Some i"
    unfolding fileBakMove_def using fileBakMove_loop_ran by blast
  then show ?thesis by (rule os_RemoveAll_ran)
next
  case False
  with assms have "names (snd (os_Rename s p (bak p (fileBakLen c s p + 1)))) q = Some i"
    by (simp add: rollOver_def)
  then show ?thesis by (rule os_Rename_ran)
qed

lemma rollOver_wf_world: "wf_world s \<Longrightarrow> wf_world (rollOver c s p)"
  unfolding wf_world_def
  by (metis rollOver_ran rollOver_fresh)

lemma put_base_fields:
  assumes "healthy s" and "names s p = None"
  shows "names (put_base s p x) = (names s)(p \<mapsto> fresh s)"
    and "data (put_base s p x) = (data s)(fresh s := x)"
    and "fresh (put_base s p x) = Suc (fresh s)"
    and "healthy (put_base s p x)"
  using assms
  by (simp_all add: put_base_def os_OpenFile_def fd_Write_def healthy_def)

lemma put_base_wf_world:
  assumes "healthy s" and "names s p = None" and "wf_world s"
  shows "wf_world (put_base s p x)"
  using assms(3)
  by (auto simp: wf_world_def put_base_fields [OF assms(1,2)] less_Suc_eq split: if_splits)

lemma put_base_content:
  assumes "healthy s" and "names s p = None" and "wf_world s"
  shows "content (put_base s p x) q = (if q = p then Some x else content s q)"
proof (cases "q = p")
  case True
  then show ?thesis
    by (simp add: content_def put_base_fields [OF assms(1,2)])
next
  case False
  show ?thesis
  proof (cases "names s q")
    case None
    with False show ?thesis
      by (simp add: content_def put_base_fields [OF assms(1,2)])
  next
    case (Some i)
    with assms(3) have "i \<noteq> fresh s" by (auto simp: wf_world_def)
    with Some False show ?thesis
      by (simp add: content_def put_base_fields [OF assms(1,2)])
  qed
qed

lemma put_base_chain:
  assumes "healthy s" and "names s p = None" and "wf_world s" and "chain m s p ys"
  shows "chain m (put_base s p x) p ys"
  using assms(4) by (simp add: chain_def put_base_content [OF assms(1,2,3)])

lemma rotations_chain:
  assumes "healthy s" and "wf_world s" and "1 \<le> FdMaxLen c"
    and "chain (FdMaxLen c) s p ys" and "names s p = None"
  shows "chain (FdMaxLen c) (rotations c p cs s) p (lastn (FdMaxLen c) (ys @ cs))"
  using assms
proof (induction cs arbitrary: s ys)
  case Nil
  then show ?case
    by (simp add: lastn_short chain_def)
next
  case (Cons x cs)
  let ?s1 = "put_base s p x"
  let ?s2 = "rollOver c ?s1 p"
  have h1: "healthy ?s1" and w1: "wf_world ?s1"
    using Cons.prems by (simp_all add: put_base_fields put_base_wf_world)
  have c1: "chain (FdMaxLen c) ?s1 p ys"
    using Cons.prems by (simp add: put_base_chain)
  have b1: "content ?s1 p = Some x"
    using Cons.prems by (simp add: put_base_content)
  have h2: "healthy ?s2" using h1 by (simp add: rollOver_healthy)
  have w2: "wf_world ?s2" using w1 by (rule rollOver_wf_world)
  have c2: "chain (FdMaxLen c) ?s2 p (lastn (FdMaxLen c) (ys @ [x]))"
    using h1 Cons.prems(3) c1 b1 by (rule rollOver_chain)
  have g2: "names ?s2 p = None"
    using h1 Cons.prems(3) c1 by (rule rollOver_base_gone)
  from Cons.IH [OF h2 w2 Cons.prems(3) c2 g2]
  show ?case
    by (simp add: lastn_lastn [of _ "ys @ [x]" cs])
qed

lemma rotations_frame:
  assumes "healthy s" and "wf_world s" and "1 \<le> FdMaxLen c"
    and "chain (FdMaxLen c) s p ys" and "names s p = None"
  shows "healthy (rotations c p cs s) \<and> wf_world (rotations c p cs s)
       \<and> names (rotations c p cs s) p = None"
  using assms
proof (induction cs arbitrary: s ys)
  case Nil
  then show ?case by simp
next
  case (Cons x cs)
  let ?s1 = "put_base s p x"
  let ?s2 = "rollOver c ?s1 p"
  have h1: "healthy ?s1" and w1: "wf_world ?s1"
    using Cons.prems by (simp_all add: put_base_fields put_base_wf_world)
  have c1: "chain (FdMaxLen c) ?s1 p ys"
    using Cons.prems by (simp add: put_base_chain)
  have b1: "content ?s1 p = Some x"
    using Cons.prems by (simp add: put_base_content)
  have h2: "healthy ?s2" using h1 by (simp add: rollOver_healthy)
  have w2: "wf_world ?s2" using w1 by (rule rollOver_wf_world)
  have c2: "chain (FdMaxLen c) ?s2 p (lastn (FdMaxLen c) (ys @ [x]))"
    using h1 Cons.prems(3) c1 b1 by (rule rollOver_chain)
  have g2: "names ?s2 p = None"
    using h1 Cons.prems(3) c1 by (rule rollOver_base_gone)
  from Cons.IH [OF h2 w2 Cons.prems(3) c2 g2] show ?case by simp
qed

lemma empty_world_clean:
  "healthy empty_world" "wf_world empty_world" "chain m empty_world p [] \<longleftrightarrow> 0 \<le> m"
  "names empty_world p = None"
  by (simp_all add: healthy_def wf_world_def chain_def content_def empty_world_def)

lemma chain_AB_facts:
  "healthy chain_AB" "wf_world chain_AB" "names chain_AB ''app.log'' = None"
  "chain 2 chain_AB ''app.log'' [''A'', ''B'']"
proof -
  have m: "1 \<le> FdMaxLen path_hook" by (simp add: path_hook_fields)
  have c0: "chain (FdMaxLen path_hook) empty_world ''app.log'' []"
    by (simp add: empty_world_clean path_hook_fields)
  from rotations_frame [OF empty_world_clean(1,2) m c0 empty_world_clean(4), of "[''A'', ''B'']"]
  show "healthy chain_AB" "wf_world chain_AB" "names chain_AB ''app.log'' = None"
    by (simp_all add: chain_AB_def)
  from rotations_chain [OF empty_world_clean(1,2) m c0 empty_world_clean(4), of "[''A'', ''B'']"]
  show "chain 2 chain_AB ''app.log'' [''A'', ''B'']"
    by (simp add: chain_AB_def path_hook_fields lastn_def)
qed

text \<open>
  C1, as the code has it. After the rotations of \<open>A\<close>, then \<open>B\<close>, suffix 1 holds
  \<open>A\<close>, the older content, and the most recent one is at suffix 2.
\<close>

theorem newest_backup_not_at_suffix_1:
  "content (rotations path_hook ''app.log'' [''A'', ''B''] empty_world) ''app.log.1'' = Some ''A''
   \<and> content (rotations path_hook ''app.log'' [''A'', ''B''] empty_world) ''app.log.2'' = Some ''B''"
proof -
  from chain_AB_facts(4)
  have "content chain_AB (bak ''app.log'' 1) = Some ''A''"
    and "content chain_AB (bak ''app.log'' 2) = Some ''B''"
    by (simp_all add: chain_def)
  then show ?thesis
    by (simp add: chain_AB_def bak_app_log)
qed

text \<open>
  C1, amended. In a world that refuses nothing, with \<open>FdMaxLen \<ge> 1\<close>, a rotation puts
  the content of the base file on top of the chain. While fewer than \<open>FdMaxLen\<close>
  backups exist, it goes to the suffix after the last one and every other backup stays.
  Once \<open>FdMaxLen\<close> backups exist, it goes to suffix \<open>FdMaxLen\<close>, and the content
  that was at suffix \<open>j + 1\<close> is at suffix \<open>j\<close>: the highest suffix is the newest
  backup and suffix 1 the oldest.
\<close>

theorem rollOver_newest_on_top:
  assumes "healthy s" and "1 \<le> FdMaxLen c" and "chain (FdMaxLen c) s p ys"
    and "content s p = Some x"
  shows "(int (length ys) < FdMaxLen c \<longrightarrow>
            content (rollOver c s p) (bak p (int (length ys) + 1)) = Some x \<and>
            (\<forall>j. j \<noteq> int (length ys) + 1 \<longrightarrow>
                 content (rollOver c s p) (bak p j) = content s (bak p j))) \<and>
         (int (length ys) = FdMaxLen c \<longrightarrow>
            content (rollOver c s p) (bak p (FdMaxLen c)) = Some x \<and>
            (\<forall>j. 1 \<le> j \<and> j < FdMaxLen c \<longrightarrow>
                 content (rollOver c s p) (bak p j) = content s (bak p (j + 1))))"
proof (intro conjI impI allI)
  assume room: "int (length ys) < FdMaxLen c"
  note n = rollOver_names_room [OF assms(1,3) room]
  from assms(4) show "content (rollOver c s p) (bak p (int (length ys) + 1)) = Some x"
    by (simp add: content_def n)
  fix j assume "j \<noteq> int (length ys) + 1"
  then show "content (rollOver c s p) (bak p j) = content s (bak p j)"
    by (simp add: content_def n)
next
  assume full: "int (length ys) = FdMaxLen c"
  note n = rollOver_names_full(2) [OF assms(1,3) full assms(2)]
  from assms(4) show "content (rollOver c s p) (bak p (FdMaxLen c)) = Some x"
    by (simp add: content_def n)
  fix j assume "1 \<le> j \<and> j < FdMaxLen c"
  then show "content (rollOver c s p) (bak p j) = content s (bak p (j + 1))"
    by (simp add: content_def n)
qed

theorem rollOver_newest_on_top_witness:
  "content (rollOver path_hook (put_base chain_AB ''app.log'' ''C'') ''app.log'') ''app.log.2'' = Some ''C''
   \<and> content (rollOver path_hook (put_base chain_AB ''app.log'' ''C'') ''app.log'') ''app.log.1''
       = content (put_base chain_AB ''app.log'' ''C'') ''app.log.2''
   \<and> content (put_base chain_AB ''app.log'' ''C'') ''app.log.2'' = Some ''B''
   \<and> content (rollOver path_hook (put_base empty_world ''app.log'' ''A'') ''app.log'') ''app.log.1''
       = Some ''A''"
proof -
  let ?s = "put_base chain_AB ''app.log'' ''C''"
  have h: "healthy ?s"
    by (simp add: put_base_fields chain_AB_facts)
  have m: "1 \<le> FdMaxLen path_hook" by (simp add: path_hook_fields)
  have ch: "chain (FdMaxLen path_hook) ?s ''app.log'' [''A'', ''B'']"
    by (simp add: put_base_chain chain_AB_facts path_hook_fields)
  have b: "content ?s ''app.log'' = Some ''C''"
    by (simp add: put_base_content chain_AB_facts)
  have old: "content ?s (bak ''app.log'' 2) = Some ''B''"
    using ch by (simp add: chain_def)
  let ?t = "put_base empty_world ''app.log'' ''A''"
  have h0: "healthy ?t"
    by (simp add: put_base_fields empty_world_clean)
  have ch0: "chain (FdMaxLen path_hook) ?t ''app.log'' []"
    by (simp add: put_base_chain empty_world_clean path_hook_fields)
  have b0: "content ?t ''app.log'' = Some ''A''"
    by (simp add: put_base_content empty_world_clean)
  from rollOver_newest_on_top [OF h m ch b] rollOver_newest_on_top [OF h0 m ch0 b0] old
  show ?thesis
    by (simp add: path_hook_fields bak_app_log [symmetric])
qed

subsection \<open>How many backups there can be\<close>

text \<open>The constructor sets both limits to at least 1.\<close>

lemma NewLfsHook_limits_case:
  "case NewLfsHook df out fm maxsz of
     Return h \<Rightarrow> 1 \<le> FdMaxLen h \<and> 1 \<le> FdMaxSize h
   | Panic \<Rightarrow> True"
  by (cases out)
    (simp_all add: NewLfsHook_def Let_def SetFormatter_def SetDefaultPath_def SetDefaultWriter_def
      split: option.splits formatter.splits)

lemma NewLfsHook_limits:
  "NewLfsHook df out fm maxsz = Return h \<Longrightarrow> 1 \<le> FdMaxLen h \<and> 1 \<le> FdMaxSize h"
  using NewLfsHook_limits_case [of df out fm maxsz] by simp

text \<open>A roll-over creates no backup name outside \<open>1 .. FdMaxLen\<close>, whatever the world refuses.\<close>

lemma fileBakLen_loop_range:
  "i \<le> m + 1 \<Longrightarrow> n \<le> fileBakLen_loop m s p i n \<and> fileBakLen_loop m s p i n \<le> n + (m + 1 - i)"
proof (induction m s p i n rule: fileBakLen_loop.induct)
  case (1 m s p i n)
  show ?case
  proof (cases "i \<le> m \<and> os_Stat s (bak p i) \<noteq> StatNotExist")
    case True
    with 1(1) have "n + 1 \<le> fileBakLen_loop m s p (i + 1) (n + 1)
        \<and> fileBakLen_loop m s p (i + 1) (n + 1) \<le> n + 1 + (m + 1 - (i + 1))"
      by simp
    with True show ?thesis
      by (subst (1 2) fileBakLen_loop.simps) simp
  next
    case False
    with 1(2) show ?thesis
      by (subst (1 2) fileBakLen_loop.simps) auto
  qed
qed

lemma fileBakLen_range: "0 \<le> FdMaxLen c \<Longrightarrow> 0 \<le> fileBakLen c s p \<and> fileBakLen c s p \<le> FdMaxLen c"
  using fileBakLen_loop_range [of 1 "FdMaxLen c" 0 s p] by (simp add: fileBakLen_def)

lemma os_Rename_new_name:
  "names (snd (os_Rename s a b)) q \<noteq> None \<Longrightarrow> names s q \<noteq> None \<or> q = b"
  by (auto simp: os_Rename_def split: option.splits if_splits)

lemma os_RemoveAll_new_name:
  "names (os_RemoveAll s a) q \<noteq> None \<Longrightarrow> names s q \<noteq> None"
  by (auto simp: os_RemoveAll_def split: if_splits)

lemma fileBakMove_loop_new_name:
  "names (fileBakMove_loop m s p i) (bak p j) \<noteq> None \<Longrightarrow>
     names s (bak p j) \<noteq> None \<or> (i \<le> j \<and> j < m)"
proof (induction m s p i rule: fileBakMove_loop.induct)
  case (1 m s p i)
  show ?case
  proof (cases "i < m")
    case True
    with 1(2) have "names (fileBakMove_loop m (snd (os_Rename s (bak p (i + 1)) (bak p i))) p (i + 1))
        (bak p j) \<noteq> None"
      by (subst (asm) fileBakMove_loop.simps) simp
    from 1(1) [OF True this]
    have "names (snd (os_Rename s (bak p (i + 1)) (bak p i))) (bak p j) \<noteq> None \<or> (i + 1 \<le> j \<and> j < m)" .
    then show ?thesis
    proof
      assume "names (snd (os_Rename s (bak p (i + 1)) (bak p i))) (bak p j) \<noteq> None"
      from os_Rename_new_name [OF this] True show ?thesis by auto
    next
      assume "i + 1 \<le> j \<and> j < m"
      then show ?thesis by simp
    qed
  next
    case False
    with 1(2) show ?thesis
      by (subst (asm) fileBakMove_loop.simps) simp
  qed
qed

lemma rollOver_new_name:
  assumes "1 \<le> FdMaxLen c" and "names (rollOver c s p) (bak p j) \<noteq> None"
  shows "names s (bak p j) \<noteq> None \<or> (1 \<le> j \<and> j \<le> FdMaxLen c)"
proof -
  from assms(1) have r: "0 \<le> fileBakLen c s p \<and> fileBakLen c s p \<le> FdMaxLen c"
    by (intro fileBakLen_range) simp
  show ?thesis
  proof (cases "FdMaxLen c \<le> fileBakLen c s p")
    case True
    with r have n: "fileBakLen c s p = FdMaxLen c" by simp
    with assms(2) have "names (snd (os_Rename (fileBakMove c s p) p (bak p (FdMaxLen c)))) (bak p j) \<noteq> None"
      by (simp add: rollOver_def)
    from os_Rename_new_name [OF this]
    have "names (fileBakMove c s p) (bak p j) \<noteq> None \<or> j = FdMaxLen c" by simp
    then show ?thesis
    proof
      assume "names (fileBakMove c s p) (bak p j) \<noteq> None"
      then have "names (os_RemoveAll s (bak p 1)) (bak p j) \<noteq> None \<or> (1 \<le> j \<and> j < FdMaxLen c)"
        unfolding fileBakMove_def by (rule fileBakMove_loop_new_name)
      then show ?thesis
        using os_RemoveAll_new_name [of s "bak p 1" "bak p j"] by auto
    next
      assume "j = FdMaxLen c"
      with assms(1) show ?thesis by simp
    qed
  next
    case False
    with assms(2) have "names (snd (os_Rename s p (bak p (fileBakLen c s p + 1)))) (bak p j) \<noteq> None"
      by (simp add: rollOver_def)
    from os_Rename_new_name [OF this] False r show ?thesis by auto
  qed
qed

lemma rollOver_backups_within:
  assumes "1 \<le> FdMaxLen c" and "{j. names s (bak p j) \<noteq> None} \<subseteq> {1 .. FdMaxLen c}"
  shows "{j. names (rollOver c s p) (bak p j) \<noteq> None} \<subseteq> {1 .. FdMaxLen c}"
proof
  fix j assume "j \<in> {j. names (rollOver c s p) (bak p j) \<noteq> None}"
  then have "names (rollOver c s p) (bak p j) \<noteq> None" by simp
  from rollOver_new_name [OF assms(1) this] assms(2) show "j \<in> {1 .. FdMaxLen c}"
    by auto
qed

lemma put_base_backups: "names (put_base s p x) (bak p j) = names s (bak p j)"
  by (simp add: put_base_def os_OpenFile_def fd_Write_def Let_def split: option.splits)

lemma rotations_backups_within:
  assumes "1 \<le> FdMaxLen c" and "{j. names s (bak p j) \<noteq> None} \<subseteq> {1 .. FdMaxLen c}"
  shows "{j. names (rotations c p cs s) (bak p j) \<noteq> None} \<subseteq> {1 .. FdMaxLen c}"
  using assms(2)
proof (induction cs arbitrary: s)
  case Nil
  then show ?case by simp
next
  case (Cons x cs)
  from Cons.prems have "{j. names (put_base s p x) (bak p j) \<noteq> None} \<subseteq> {1 .. FdMaxLen c}"
    by (simp add: put_base_backups)
  from rollOver_backups_within [OF assms(1) this]
  have "{j. names (rollOver c (put_base s p x) p) (bak p j) \<noteq> None} \<subseteq> {1 .. FdMaxLen c}" .
  from Cons.IH [OF this] show ?case by simp
qed

text \<open>
  C4. With \<open>FdMaxLen \<ge> 1\<close> (as the constructor sets it), for every path and every
  sequence of rotations. If the backups of the path are among the suffixes
  \<open>1 .. FdMaxLen\<close> before, they are so after, whatever the world refuses: there are at
  most \<open>FdMaxLen\<close> of them. In a world that refuses nothing, starting without backups,
  the backups are exactly the suffixes 1 to the number of rotations, capped at
  \<open>FdMaxLen\<close>, and they hold the contents rotated last, in the order of rotation: what
  a rotation of a full chain drops is the oldest backup.
\<close>

theorem backups_bounded:
  assumes "1 \<le> FdMaxLen c"
  shows "({j. names s (bak p j) \<noteq> None} \<subseteq> {1 .. FdMaxLen c} \<longrightarrow>
            {j. names (rotations c p cs s) (bak p j) \<noteq> None} \<subseteq> {1 .. FdMaxLen c} \<and>
            card {j. names (rotations c p cs s) (bak p j) \<noteq> None} \<le> nat (FdMaxLen c))
       \<and> (healthy s \<and> wf_world s \<and> chain (FdMaxLen c) s p [] \<and> names s p = None \<longrightarrow>
            {j. names (rotations c p cs s) (bak p j) \<noteq> None}
              = {1 .. min (int (length cs)) (FdMaxLen c)} \<and>
            (\<forall>j. 1 \<le> j \<and> j \<le> min (int (length cs)) (FdMaxLen c) \<longrightarrow>
               content (rotations c p cs s) (bak p j)
                 = Some (lastn (FdMaxLen c) cs ! nat (j - 1))))"
proof (intro conjI impI)
  assume within: "{j. names s (bak p j) \<noteq> None} \<subseteq> {1 .. FdMaxLen c}"
  from rotations_backups_within [OF assms within]
  show sub: "{j. names (rotations c p cs s) (bak p j) \<noteq> None} \<subseteq> {1 .. FdMaxLen c}" .
  have "card {j. names (rotations c p cs s) (bak p j) \<noteq> None} \<le> card {1 .. FdMaxLen c}"
    using sub by (intro card_mono) simp_all
  then show "card {j. names (rotations c p cs s) (bak p j) \<noteq> None} \<le> nat (FdMaxLen c)"
    by simp
next
  assume clean: "healthy s \<and> wf_world s \<and> chain (FdMaxLen c) s p [] \<and> names s p = None"
  then have "chain (FdMaxLen c) (rotations c p cs s) p (lastn (FdMaxLen c) ([] @ cs))"
    using assms by (intro rotations_chain) simp_all
  then have ch: "chain (FdMaxLen c) (rotations c p cs s) p (lastn (FdMaxLen c) cs)" by simp
  have len: "int (length (lastn (FdMaxLen c) cs)) = min (int (length cs)) (FdMaxLen c)"
    using assms by (simp add: length_lastn)
  show "{j. names (rotations c p cs s) (bak p j) \<noteq> None}
      = {1 .. min (int (length cs)) (FdMaxLen c)}"
    using chain_names [OF ch] len by auto
  show "\<forall>j. 1 \<le> j \<and> j \<le> min (int (length cs)) (FdMaxLen c) \<longrightarrow>
      content (rotations c p cs s) (bak p j) = Some (lastn (FdMaxLen c) cs ! nat (j - 1))"
    using ch len by (simp add: chain_def)
qed

theorem backups_bounded_witness:
  "{j. names (rotations path_hook ''app.log'' [''A'', ''B'', ''C''] empty_world) (bak ''app.log'' j) \<noteq> None}
     = {1 .. 2}
   \<and> card {j. names (rotations path_hook ''app.log'' [''A'', ''B'', ''C''] empty_world)
                 (bak ''app.log'' j) \<noteq> None} \<le> 2
   \<and> content (rotations path_hook ''app.log'' [''A'', ''B'', ''C''] empty_world) ''app.log.1'' = Some ''B''
   \<and> content (rotations path_hook ''app.log'' [''A'', ''B'', ''C''] empty_world) ''app.log.2'' = Some ''C''"
proof -
  have m: "1 \<le> FdMaxLen path_hook" by (simp add: path_hook_fields)
  have none: "{j. names empty_world (bak ''app.log'' j) \<noteq> None} \<subseteq> {1 .. FdMaxLen path_hook}"
    by (simp add: empty_world_clean)
  have clean: "healthy empty_world \<and> wf_world empty_world
      \<and> chain (FdMaxLen path_hook) empty_world ''app.log'' [] \<and> names empty_world ''app.log'' = None"
    by (simp add: empty_world_clean path_hook_fields)
  note t = backups_bounded [OF m, of empty_world "''app.log''" "[''A'', ''B'', ''C'']"]
  from t none have "card {j. names (rotations path_hook ''app.log'' [''A'', ''B'', ''C''] empty_world)
                 (bak ''app.log'' j) \<noteq> None} \<le> 2"
    by (simp add: path_hook_fields)
  moreover from t clean
  have "{j. names (rotations path_hook ''app.log'' [''A'', ''B'', ''C''] empty_world)
        (bak ''app.log'' j) \<noteq> None} = {1 .. 2}"
    by (simp add: path_hook_fields)
  moreover from t clean
  have "content (rotations path_hook ''app.log'' [''A'', ''B'', ''C''] empty_world) (bak ''app.log'' 1)
      = Some ''B''"
    and "content (rotations path_hook ''app.log'' [''A'', ''B'', ''C''] empty_world) (bak ''app.log'' 2)
      = Some ''C''"
    by (simp_all add: path_hook_fields lastn_def)
  ultimately show ?thesis
    by (simp add: bak_app_log)
qed

subsection \<open>When \<open>fileCheck\<close> returns\<close>

text \<open>
  The loop of \<open>fileCheck\<close> ends whenever the rename of the base file is not refused
  and \<open>FdMaxSize\<close> is not negative: after a roll-over the base name is free, the new
  file starts at length 0, and the next check passes.
\<close>

lemma rollOver_deny_rename [simp]: "deny_rename (rollOver c s p) = deny_rename s"
proof -
  obtain n where "rollOver c s p = s\<lparr>names := n\<rparr>" using rollOver_names_only by blast
  then show ?thesis by simp
qed

lemma os_Rename_source_gone:
  "\<not> deny_rename s a \<Longrightarrow> a \<noteq> b \<Longrightarrow> names (snd (os_Rename s a b)) a = None"
  by (simp add: os_Rename_def split: option.splits)

lemma rollOver_base_renamed:
  assumes "\<not> deny_rename s p"
  shows "names (rollOver c s p) p = None"
proof (cases "FdMaxLen c \<le> fileBakLen c s p")
  case True
  have "\<not> deny_rename (fileBakMove c s p) p"
    using assms by (simp add: fileBakMove_deny_rename)
  then have "names (snd (os_Rename (fileBakMove c s p) p (bak p (fileBakLen c s p)))) p = None"
    by (intro os_Rename_source_gone) simp_all
  with True show ?thesis by (simp add: rollOver_def)
next
  case False
  have "names (snd (os_Rename s p (bak p (fileBakLen c s p + 1)))) p = None"
    using assms by (intro os_Rename_source_gone) simp_all
  with False show ?thesis by (simp add: rollOver_def)
qed

lemma fileCheck_absent_returns:
  assumes "fd fe = None" and "names s (path fe) = None" and "0 \<le> FdMaxSize c"
  shows "\<exists>r. fileCheck c fe s = Some r"
proof (cases "deny_open s (path fe)")
  case True
  with assms(1) show ?thesis by (simp add: fileCheck_open_denied)
next
  case False
  with assms show ?thesis by (simp add: fileCheck_create)
qed

lemma fileCheck_rolled_returns:
  assumes "\<not> deny_rename s (path fe)" and "0 \<le> FdMaxSize c"
  shows "\<exists>r. fileCheck c (fe\<lparr>fd := None\<rparr>) (rollOver c s (path fe)) = Some r"
proof (rule fileCheck_absent_returns)
  show "fd (fe\<lparr>fd := None\<rparr>) = None" by simp
  show "names (rollOver c s (path fe)) (path (fe\<lparr>fd := None\<rparr>)) = None"
    using assms(1) by (simp add: rollOver_base_renamed)
  show "0 \<le> FdMaxSize c" by fact
qed

lemma fileCheck_returns:
  assumes "\<not> deny_rename s (path fe)" and "0 \<le> FdMaxSize c"
  shows "\<exists>r. fileCheck c fe s = Some r"
proof (cases "fd fe")
  case (Some i)
  show ?thesis
  proof (cases "ln fe \<le> FdMaxSize c")
    case True
    with Some show ?thesis by (simp add: fileCheck_within)
  next
    case False
    with Some have "fileCheck c fe s = fileCheck c (fe\<lparr>fd := None\<rparr>) (rollOver c s (path fe))"
      by (simp add: fileCheck_over)
    with fileCheck_rolled_returns [OF assms] show ?thesis by simp
  qed
next
  case None
  show ?thesis
  proof (cases "names s (path fe)")
    case absent: None
    from fileCheck_absent_returns [OF None absent assms(2)] show ?thesis .
  next
    case (Some i)
    show ?thesis
    proof (cases "deny_open s (path fe)")
      case True
      with None show ?thesis by (simp add: fileCheck_open_denied)
    next
      case False
      let ?fe = "fe\<lparr>ln := startLen s (path fe), fd := Some i\<rparr>"
      from None Some False have opened: "fileCheck c fe s = fileCheck c ?fe s"
        by (simp add: fileCheck_closed os_OpenFile_def)
      show ?thesis
      proof (cases "ln ?fe \<le> FdMaxSize c")
        case True
        then have "fileCheck c ?fe s = Some (None, ?fe, s)"
          by (intro fileCheck_within [of _ i]) simp_all
        with opened show ?thesis by simp
      next
        case over: False
        then have "fileCheck c ?fe s = fileCheck c (?fe\<lparr>fd := None\<rparr>) (rollOver c s (path ?fe))"
          by (intro fileCheck_over [of _ i]) simp_all
        moreover have "\<exists>r. fileCheck c (?fe\<lparr>fd := None\<rparr>) (rollOver c s (path ?fe)) = Some r"
          using assms by (intro fileCheck_rolled_returns) simp_all
        ultimately show ?thesis using opened by simp
      qed
    qed
  qed
qed

subsection \<open>A write through the handle of a level\<close>

text \<open>
  In file mode \<open>Fire\<close> is the rest of \<open>fileWrite\<close> on the handle of the level.
\<close>

lemma Fire_file_checked:
  assumes "\<not> sinkMode hook" and "registry_ok hook" and "handleOf hook (Level e) = Some fe"
  shows "Fire hook e s = fileWrite_checked (hook\<lparr>fls := (fls hook)(Level e \<mapsto> fe)\<rparr>) e fe s"
proof -
  from assms(3) have "resolvePath hook (Level e) \<noteq> None"
    using assms(2) by (auto simp: handleOf_def registry_ok_def split: option.splits)
  then have "paths hook \<noteq> None \<or> hasDefaultPath hook"
    by (auto simp: resolvePath_None_iff map_get_def split: option.splits)
  with assms(1,3) show ?thesis
    by (simp add: Fire_def sinkMode_def fileWrite_handleOf)
qed

lemma fileWrite_checked_written:
  assumes "fileCheck hook fe s = Some (None, fe1, s1)" and "fd fe1 = Some i"
    and "Format (formatter hook) e = Inr msg"
  shows "fileWrite_checked hook e fe s
     = Some (Return None,
         hook\<lparr>fls := (fls hook)(Level e \<mapsto> fe1\<lparr>ln := ln fe1 + int (fst (fd_Write s1 i msg))\<rparr>)\<rparr>,
         snd (snd (fd_Write s1 i msg)))"
  using assms by (simp add: fileWrite_checked_def split: prod.splits)

lemma fileCheck_opened:
  assumes "openedOn fe s i s1"
  shows "fileCheck c fe s = fileCheck c (fe\<lparr>ln := checkLen fe s, fd := Some i\<rparr>) s1"
proof (cases "fd fe")
  case None
  with assms show ?thesis
    by (simp add: fileCheck_closed openedOn_def checkLen_def)
next
  case (Some j)
  with assms have "fe\<lparr>ln := checkLen fe s, fd := Some i\<rparr> = fe"
    by (simp add: openedOn_def checkLen_def)
  with Some assms show ?thesis
    by (simp add: openedOn_def)
qed

lemma openedOn_frame:
  assumes "openedOn fe s i s1"
  shows "deny_open s1 = deny_open s" "deny_rename s1 = deny_rename s" "free s1 = free s"
    "sinks s1 = sinks s"
proof -
  have "\<exists>n d f. s1 = s\<lparr>names := n, data := d, fresh := f\<rparr>"
  proof (cases "fd fe")
    case None
    with assms have "os_OpenFile s (path fe) = (Inr i, s1)" by (simp add: openedOn_def)
    then show ?thesis by (rule os_OpenFile_frame)
  next
    case (Some j)
    with assms show ?thesis by (simp add: openedOn_def world_frame_refl)
  qed
  then obtain n d f where "s1 = s\<lparr>names := n, data := d, fresh := f\<rparr>" by blast
  then show "deny_open s1 = deny_open s" "deny_rename s1 = deny_rename s" "free s1 = free s"
    "sinks s1 = sinks s"
    by simp_all
qed

text \<open>
  Within the limit \<open>fileCheck\<close> returns the handle open, with the length the test
  worked on. Over the limit, when the rename and the open are not refused, it returns the
  handle open on a new empty file, with the tracked length 0.
\<close>

lemma fileCheck_within_limit:
  assumes "openedOn fe s i s1" and "checkLen fe s \<le> FdMaxSize c"
  shows "fileCheck c fe s = Some (None, fe\<lparr>ln := checkLen fe s, fd := Some i\<rparr>, s1)"
  using assms(2) by (simp add: fileCheck_opened [OF assms(1)] fileCheck_within [of _ i])

lemma fileCheck_over_limit:
  assumes "openedOn fe s i s1" and "FdMaxSize c < checkLen fe s"
    and "\<not> deny_rename s (path fe)" and "\<not> deny_open s (path fe)" and "0 \<le> FdMaxSize c"
  shows "fileCheck c fe s
     = Some (None, fe\<lparr>ln := 0, fd := Some (fresh s1)\<rparr>,
             snd (os_OpenFile (rollOver c s1 (path fe)) (path fe)))"
    and "names (rollOver c s1 (path fe)) (path fe) = None"
proof -
  let ?fe = "fe\<lparr>ln := checkLen fe s, fd := Some i\<rparr>"
  have dr: "\<not> deny_rename s1 (path fe)" and d: "\<not> deny_open s1 (path fe)"
    using assms(3,4) by (simp_all add: openedOn_frame [OF assms(1)])
  show gone: "names (rollOver c s1 (path fe)) (path fe) = None"
    using dr by (rule rollOver_base_renamed)
  have "fileCheck c fe s = fileCheck c ?fe s1"
    by (rule fileCheck_opened [OF assms(1)])
  also have "\<dots> = fileCheck c (?fe\<lparr>fd := None\<rparr>) (rollOver c s1 (path ?fe))"
    using assms(2) by (intro fileCheck_over [of _ i]) simp_all
  also have "\<dots> = Some (None, ?fe\<lparr>fd := None\<rparr>\<lparr>ln := 0, fd := Some (fresh (rollOver c s1 (path ?fe)))\<rparr>,
      snd (os_OpenFile (rollOver c s1 (path ?fe)) (path (?fe\<lparr>fd := None\<rparr>))))"
    using gone d assms(5) by (intro fileCheck_create) simp_all
  finally show "fileCheck c fe s
     = Some (None, fe\<lparr>ln := 0, fd := Some (fresh s1)\<rparr>,
             snd (os_OpenFile (rollOver c s1 (path fe)) (path fe)))"
    by simp
qed

lemma Fire_within_limit:
  assumes "\<not> sinkMode hook" and "registry_ok hook" and "handleOf hook (Level e) = Some fe"
    and "Format (formatter hook) e = Inr msg"
    and "openedOn fe s i s1" and "checkLen fe s \<le> FdMaxSize hook"
  shows "Fire hook e s
     = Some (Return None,
         hook\<lparr>fls := (fls hook)(Level e \<mapsto>
                  fe\<lparr>fd := Some i, ln := checkLen fe s + int (fst (fd_Write s1 i msg))\<rparr>)\<rparr>,
         snd (snd (fd_Write s1 i msg)))"
proof -
  let ?h = "hook\<lparr>fls := (fls hook)(Level e \<mapsto> fe)\<rparr>"
  have "fileCheck ?h fe s = fileCheck hook fe s"
    by (intro fileCheck_cong) simp_all
  with fileCheck_within_limit [OF assms(5,6)]
  have chk: "fileCheck ?h fe s = Some (None, fe\<lparr>ln := checkLen fe s, fd := Some i\<rparr>, s1)"
    by simp
  have fm: "Format (formatter ?h) e = Inr msg" using assms(4) by simp
  have "fd (fe\<lparr>ln := checkLen fe s, fd := Some i\<rparr>) = Some i" by simp
  from fileWrite_checked_written [OF chk this fm] show ?thesis
    by (simp add: Fire_file_checked [OF assms(1,2,3)])
qed


lemma free_fields: "free small_log = None" "free big_log = None"
  by (simp_all add: small_log_def big_log_def empty_world_def)

lemma path_hook_handle:
  "handleOf path_hook (Level hello) = Some \<lparr>fd = None, path = ''app.log'', ln = 0\<rparr>"
  by (simp add: handleOf_def resolvePath_def map_get_def path_hook_fields hello_def)


lemma hello_formatted: "Format (formatter path_hook) hello = Inr ''hello''"
  by (simp add: path_hook_fields plain_formatter_def hello_def)




subsection \<open>The threshold\<close>




subsection \<open>The tracked length since the last open\<close>

text \<open>The number of bytes a write stores depends on the room on the device only.\<close>

lemma fd_Write_count: "free s1 = free s \<Longrightarrow> fst (fd_Write s1 i msg) = fst (fd_Write s j msg)"
  by (simp add: fd_Write_def Let_def)

text \<open>A \<open>Fire\<close> changes the registry of handles only, and there the handle of its level only.\<close>

lemma Fire_rest:
  assumes "Fire hook e s = Some (r, hook', s')"
  shows "hook'\<lparr>fls := fls hook\<rparr> = hook"
proof (cases "sinkMode hook")
  case True
  with assms show ?thesis
    by (auto simp: Fire_def sinkMode_def split: prod.splits)
next
  case False
  show ?thesis
  proof (cases "pathConfigured hook")
    case True
    with False assms have "fileWrite hook e s = Some (r, hook', s')"
      by (simp add: Fire_def sinkMode_def pathConfigured_def)
    then show ?thesis by (rule fileWrite_rest)
  next
    case no: False
    with False assms show ?thesis
      by (auto simp: Fire_def sinkMode_def pathConfigured_def)
  qed
qed

lemma Fire_other_level:
  assumes "Fire hook e s = Some (r, hook', s')" and "Level e \<noteq> l"
  shows "fls hook' l = fls hook l"
proof (cases "sinkMode hook")
  case True
  with assms show ?thesis
    by (auto simp: Fire_def sinkMode_def split: prod.splits)
next
  case False
  show ?thesis
  proof (cases "pathConfigured hook")
    case True
    with False assms have "fileWrite hook e s = Some (r, hook', s')"
      by (simp add: Fire_def sinkMode_def pathConfigured_def)
    from fileWrite_config [OF this] assms(2) show ?thesis by auto
  next
    case no: False
    with False assms show ?thesis
      by (auto simp: Fire_def sinkMode_def pathConfigured_def)
  qed
qed

lemma Fire_same_config:
  assumes "Fire hook e s = Some (r, hook', s')"
  shows "sinkMode hook' = sinkMode hook" "registry_ok hook \<Longrightarrow> registry_ok hook'"
    "FdMaxSize hook' = FdMaxSize hook" "formatter hook' = formatter hook"
proof -
  from Fire_rest [OF assms] have eq: "hook'\<lparr>fls := fls hook\<rparr> = hook" .
  have "sinkMode (hook'\<lparr>fls := fls hook\<rparr>) = sinkMode hook'"
    by (simp add: sinkMode_def)
  with eq show "sinkMode hook' = sinkMode hook" by simp
  have "FdMaxSize (hook'\<lparr>fls := fls hook\<rparr>) = FdMaxSize hook'" by simp
  with eq show "FdMaxSize hook' = FdMaxSize hook" by simp
  have "formatter (hook'\<lparr>fls := fls hook\<rparr>) = formatter hook'" by simp
  with eq show "formatter hook' = formatter hook" by simp
  show "registry_ok hook \<Longrightarrow> registry_ok hook'"
    using assms by (rule Fire_registry_ok)
qed

lemma Fire_handleOf_other:
  assumes "Fire hook e s = Some (r, hook', s')" and "Level e \<noteq> l"
  shows "handleOf hook' l = handleOf hook l"
proof -
  from Fire_rest [OF assms(1)] have eq: "hook'\<lparr>fls := fls hook\<rparr> = hook" .
  have "resolvePath (hook'\<lparr>fls := fls hook\<rparr>) l = resolvePath hook' l"
    by (intro resolvePath_cong) simp_all
  with eq have rp: "resolvePath hook' l = resolvePath hook l" by simp
  show ?thesis
    unfolding handleOf_def rp Fire_other_level [OF assms] ..
qed

text \<open>
  What \<open>fileCheck\<close> returns as the tracked length: the length it was given when it
  does not run ensure-open, and else the size of the file at the path when it returns.
\<close>

lemma os_OpenFile_startLen:
  assumes "os_OpenFile s p = (r, s1)"
  shows "startLen s1 p = startLen s p"
proof (cases "deny_open s p \<or> names s p \<noteq> None")
  case True
  with assms have "s1 = s"
    by (auto simp: os_OpenFile_def split: if_splits)
  then show ?thesis by simp
next
  case False
  with assms have "s1 = s\<lparr>names := (names s)(p \<mapsto> fresh s), data := (data s)(fresh s := []),
      fresh := Suc (fresh s)\<rparr>"
    by (auto simp: os_OpenFile_def)
  with False show ?thesis
    by (simp add: startLen_def os_Stat_def)
qed

lemma fileCheck_ln:
  assumes "fileCheck c fe s = Some r"
  shows "(if reopens c fe then ln (fst (snd r)) = startLen (snd (snd r)) (path fe)
          else fst (snd r) = fe \<and> snd (snd r) = s)"
proof (rule fileCheck.raw_induct [where P = "\<lambda>c fe s r.
      (if reopens c fe then ln (fst (snd r)) = startLen (snd (snd r)) (path fe)
       else fst (snd r) = fe \<and> snd (snd r) = s)", OF _ assms], goal_cases)
  case (1 f c fe s r)
  note IH = 1(1) and step = 1(2)
  show ?case
  proof (cases "fd fe")
    case None
    obtain o1 s1 where op: "os_OpenFile s (path fe) = (o1, s1)"
      by (cases "os_OpenFile s (path fe)")
    note sl = os_OpenFile_startLen [OF op]
    show ?thesis
    proof (cases o1)
      case (Inl err)
      with op None step have "r = (Some err, fe\<lparr>ln := startLen s (path fe)\<rparr>, s1)"
        by (auto simp: startLen_def Let_def split: stat_result.splits)
      with None sl show ?thesis
        by (simp add: reopens_def)
    next
      case (Inr fl)
      with op None step
      have "f c (fe\<lparr>ln := startLen s (path fe), fd := Some fl\<rparr>) s1 = Some r"
        by (simp add: startLen_def Let_def split: stat_result.splits)
      from IH [OF this] None sl show ?thesis
        by (auto simp: reopens_def split: if_splits)
    qed
  next
    case (Some i)
    show ?thesis
    proof (cases "FdMaxSize c < ln fe")
      case True
      with Some step have "f c (fe\<lparr>fd := None\<rparr>) (rollOver c s (path fe)) = Some r"
        by (simp add: Let_def)
      from IH [OF this] True show ?thesis
        by (simp add: reopens_def)
    next
      case False
      with Some step show ?thesis
        by (auto simp: reopens_def)
    qed
  qed
qed

lemma fileCheck_free:
  "fileCheck c fe s = Some (r, fe1, s1) \<Longrightarrow> free s1 = free s"
  by (drule fileCheck_frame) auto

lemma Fire_handle_ln:
  assumes "\<not> sinkMode hook" and "registry_ok hook" and "handleOf hook (Level e) = Some fe"
    and "Fire hook e s = Some (r, hook', s')"
  shows "\<exists>fe'. fls hook' (Level e) = Some fe' \<and>
           ln fe' = (if reopens hook fe then foundLen hook fe s else ln fe) + int (stored hook e s r)"
proof -
  let ?h = "hook\<lparr>fls := (fls hook)(Level e \<mapsto> fe)\<rparr>"
  let ?L = "if reopens hook fe then foundLen hook fe s else ln fe"
  have cong: "fileCheck ?h fe s = fileCheck hook fe s"
    by (intro fileCheck_cong) simp_all
  from assms have fw: "fileWrite_checked ?h e fe s = Some (r, hook', s')"
    by (simp add: Fire_file_checked)
  then obtain r1 fe1 s1 where chk: "fileCheck hook fe s = Some (r1, fe1, s1)"
    by (cases "fileCheck hook fe s") (auto simp: fileWrite_checked_def cong)
  from fileCheck_ln [OF chk] have l1: "ln fe1 = ?L"
    by (auto simp: foundLen_def chk split: if_splits)
  show ?thesis
  proof (cases r1)
    case (Some err)
    with fw chk have "r = Return (Some err)" "fls hook' (Level e) = Some fe1"
      by (auto simp: fileWrite_checked_def cong)
    with l1 show ?thesis
      by (simp add: stored_def split: sum.splits)
  next
    case None
    show ?thesis
    proof (cases "Format (formatter hook) e")
      case (Inl err)
      with None fw chk have "fls hook' (Level e) = Some fe1"
        by (auto simp: fileWrite_checked_def cong)
      with l1 Inl show ?thesis
        by (simp add: stored_def)
    next
      case (Inr msg)
      from fileCheck_result [OF chk] None obtain i where i: "fd fe1 = Some i"
        by auto
      from None Inr i fw chk
      have "r = Return None"
        "fls hook' (Level e) = Some (fe1\<lparr>ln := ln fe1 + int (fst (fd_Write s1 i msg))\<rparr>)"
        by (auto simp: fileWrite_checked_def cong split: prod.splits)
      moreover have "fst (fd_Write s1 i msg) = fst (fd_Write s 0 msg)"
        using fileCheck_free [OF chk] by (rule fd_Write_count)
      ultimately show ?thesis
        using l1 Inr by (simp add: stored_def)
    qed
  qed
qed

lemma since_open_invariant:
  assumes "\<not> sinkMode hook" and "registry_ok hook" and "handleOf hook l = Some fe"
    and "Fire_all hook es s = Some (hook', s')" and "ln fe = fst acc + int (snd acc)"
  shows "\<exists>fe'. handleOf hook' l = Some fe' \<and>
           ln fe' = fst (since_open l hook es s acc) + int (snd (since_open l hook es s acc))"
  using assms
proof (induction es arbitrary: hook s fe acc)
  case Nil
  then show ?case by simp
next
  case (Cons e es)
  from Cons.prems(4) obtain r h1 s1 where f1: "Fire hook e s = Some (r, h1, s1)"
    and rest: "Fire_all h1 es s1 = Some (hook', s')"
    by (auto split: option.splits)
  from Fire_same_config [OF f1] Cons.prems(1,2)
  have m1: "\<not> sinkMode h1" and r1: "registry_ok h1"
    by simp_all
  show ?case
  proof (cases "Level e = l")
    case False
    from Fire_handleOf_other [OF f1 False] Cons.prems(3)
    have h: "handleOf h1 l = Some fe" by simp
    from Cons.IH [OF m1 r1 h rest Cons.prems(5)] f1 False show ?thesis
      by simp
  next
    case True
    with Cons.prems(3) have h0: "handleOf hook (Level e) = Some fe" by simp
    from Fire_handle_ln [OF Cons.prems(1,2) h0 f1] obtain fe1
      where fl: "fls h1 (Level e) = Some fe1"
        and l1: "ln fe1 = (if reopens hook fe then foundLen hook fe s else ln fe)
                   + int (stored hook e s r)"
      by blast
    from fl True have h: "handleOf h1 l = Some fe1"
      by (simp add: handleOf_def)
    let ?acc = "if reopens hook fe then (foundLen hook fe s, stored hook e s r)
                else (fst acc, snd acc + stored hook e s r)"
    from l1 Cons.prems(5) have a: "ln fe1 = fst ?acc + int (snd ?acc)"
      by simp
    from Cons.IH [OF m1 r1 h rest a] f1 True Cons.prems(3) show ?thesis
      by simp
  qed
qed

lemma foundLen_opened:
  assumes "fd fe = None" and "\<not> deny_open s (path fe)" and "startLen s (path fe) \<le> FdMaxSize c"
  shows "foundLen c fe s = startLen s (path fe)"
proof -
  obtain o1 s1 where op: "os_OpenFile s (path fe) = (o1, s1)"
    by (cases "os_OpenFile s (path fe)")
  with assms(2) obtain i where o1: "o1 = Inr i"
    by (cases o1) (auto dest: os_OpenFile_Inl)
  with op assms(1) have "openedOn fe s i s1"
    by (simp add: openedOn_def)
  from fileCheck_within_limit [OF this, of c] assms(1,3) os_OpenFile_startLen [OF op]
  show ?thesis
    by (simp add: foundLen_def checkLen_def)
qed

lemma foundLen_rotated:
  assumes "FdMaxSize c < checkLen fe s"
    and "\<not> deny_rename s (path fe)" and "\<not> deny_open s (path fe)" and "0 \<le> FdMaxSize c"
  shows "foundLen c fe s = 0"
proof -
  obtain i s1 where op: "openedOn fe s i s1"
  proof (cases "fd fe")
    case None
    obtain o1 s1 where op: "os_OpenFile s (path fe) = (o1, s1)"
      by (cases "os_OpenFile s (path fe)")
    with assms(3) obtain i where "o1 = Inr i"
      by (cases o1) (auto dest: os_OpenFile_Inl)
    with op None have "openedOn fe s i s1" by (simp add: openedOn_def)
    then show ?thesis by (rule that)
  next
    case (Some j)
    then have "openedOn fe s j s" by (simp add: openedOn_def)
    then show ?thesis by (rule that)
  qed
  note r = fileCheck_over_limit [OF op assms]
  obtain o2 s2 where op2: "os_OpenFile (rollOver c s1 (path fe)) (path fe) = (o2, s2)"
    by (cases "os_OpenFile (rollOver c s1 (path fe)) (path fe)")
  from os_OpenFile_startLen [OF op2] r(2)
  have "startLen s2 (path fe) = 0"
    by (simp add: startLen_absent)
  with r(1) op2 show ?thesis
    by (simp add: foundLen_def)
qed

lemma stored_count:
  "stored hook e s r \<le> (case Format (formatter hook) e of Inl err \<Rightarrow> 0 | Inr msg \<Rightarrow> length msg)"
  by (simp add: stored_def fd_Write_def Let_def split: sum.splits option.splits)

lemma stored_fls: "stored (hook\<lparr>fls := f\<rparr>) e s r = stored hook e s r"
  by (simp add: stored_def)

lemma shared_log_fields:
  "names shared_log = [''app.log'' \<mapsto> 0]" "data shared_log = (\<lambda>_. [])(0 := ''abc'')"
  "fresh shared_log = 1" "free shared_log = Some 4" "deny_open shared_log = (\<lambda>_. False)"
  "deny_stat shared_log = (\<lambda>_. False)" "deny_rename shared_log = (\<lambda>_. False)"
  by (simp_all add: shared_log_def small_log_def empty_world_def)

lemma Fire_shared_log_1:
  "Fire path_hook note_a shared_log
     = Some (Return None,
         path_hook\<lparr>fls := [InfoLevel \<mapsto> \<lparr>fd = Some 0, path = ''app.log'', ln = 4\<rparr>]\<rparr>,
         shared_log\<lparr>data := (\<lambda>_. [])(0 := ''abca''), free := Some 3\<rparr>)"
  by (simp add: Fire_def fileWrite_def fileWrite_checked_def Let_def resolvePath_def map_get_def
        os_MkdirAll_Dir_def note_a_def path_hook_fields plain_formatter_def fd_Write_def
        fileCheck.simps os_Stat_def os_OpenFile_def shared_log_fields fun_eq_iff)

lemma Fire_shared_log_2:
  "Fire (path_hook\<lparr>fls := [InfoLevel \<mapsto> \<lparr>fd = Some 0, path = ''app.log'', ln = 4\<rparr>]\<rparr>) error_b
       (shared_log\<lparr>data := (\<lambda>_. [])(0 := ''abca''), free := Some 3\<rparr>)
     = Some (Return None,
         path_hook\<lparr>fls := [InfoLevel \<mapsto> \<lparr>fd = Some 0, path = ''app.log'', ln = 4\<rparr>,
                            ErrorLevel \<mapsto> \<lparr>fd = Some 0, path = ''app.log'', ln = 5\<rparr>]\<rparr>,
         shared_log\<lparr>data := (\<lambda>_. [])(0 := ''abcab''), free := Some 2\<rparr>)"
  by (simp add: Fire_def fileWrite_def fileWrite_checked_def Let_def resolvePath_def map_get_def
        os_MkdirAll_Dir_def error_b_def path_hook_fields plain_formatter_def fd_Write_def
        fileCheck.simps os_Stat_def os_OpenFile_def shared_log_fields fun_eq_iff)

lemma Fire_shared_log_3:
  "Fire (path_hook\<lparr>fls := [InfoLevel \<mapsto> \<lparr>fd = Some 0, path = ''app.log'', ln = 4\<rparr>,
                            ErrorLevel \<mapsto> \<lparr>fd = Some 0, path = ''app.log'', ln = 5\<rparr>]\<rparr>) hello
       (shared_log\<lparr>data := (\<lambda>_. [])(0 := ''abcab''), free := Some 2\<rparr>)
     = Some (Return None,
         path_hook\<lparr>fls := [ErrorLevel \<mapsto> \<lparr>fd = Some 0, path = ''app.log'', ln = 5\<rparr>,
                            InfoLevel \<mapsto> \<lparr>fd = Some 0, path = ''app.log'', ln = 6\<rparr>]\<rparr>,
         shared_log\<lparr>data := (\<lambda>_. [])(0 := ''abcabhe''), free := Some 0\<rparr>)"
  by (simp add: Fire_def fileWrite_def fileWrite_checked_def Let_def resolvePath_def map_get_def
        os_MkdirAll_Dir_def hello_def path_hook_fields plain_formatter_def fd_Write_def
        fileCheck.simps os_Stat_def os_OpenFile_def shared_log_fields fun_eq_iff)

lemma Fire_all_shared_log:
  "Fire_all path_hook [note_a, error_b, hello] shared_log
     = Some (path_hook\<lparr>fls := [ErrorLevel \<mapsto> \<lparr>fd = Some 0, path = ''app.log'', ln = 5\<rparr>,
                               InfoLevel \<mapsto> \<lparr>fd = Some 0, path = ''app.log'', ln = 6\<rparr>]\<rparr>,
         shared_log\<lparr>data := (\<lambda>_. [])(0 := ''abcabhe''), free := Some 0\<rparr>)"
  by (simp add: Fire_shared_log_1 Fire_shared_log_2 Fire_shared_log_3)

lemma since_open_shared_log:
  "since_open InfoLevel path_hook [note_a, error_b, hello] shared_log (0, 0) = (3, 3)"
proof -
  have f: "foundLen path_hook \<lparr>fd = None, path = ''app.log'', ln = 0\<rparr> shared_log = 3"
    by (simp add: foundLen_opened startLen_def os_Stat_def shared_log_fields path_hook_fields)
  have h0: "handleOf path_hook InfoLevel = Some \<lparr>fd = None, path = ''app.log'', ln = 0\<rparr>"
    by (simp add: handleOf_def resolvePath_def map_get_def path_hook_fields)
  have h2: "handleOf (path_hook\<lparr>fls := [InfoLevel \<mapsto> \<lparr>fd = Some 0, path = ''app.log'', ln = 4\<rparr>,
                            ErrorLevel \<mapsto> \<lparr>fd = Some 0, path = ''app.log'', ln = 5\<rparr>]\<rparr>) InfoLevel
      = Some \<lparr>fd = Some 0, path = ''app.log'', ln = 4\<rparr>"
    by (simp add: handleOf_def)
  have lv: "Level note_a = InfoLevel" "Level error_b = ErrorLevel" "Level hello = InfoLevel"
    by (simp_all add: note_a_def error_b_def hello_def)
  have st: "stored path_hook note_a shared_log (Return None) = 1"
    "stored path_hook hello (shared_log\<lparr>data := (\<lambda>_. [])(0 := ''abcab''), free := Some 2\<rparr>)
       (Return None) = 2"
    by (simp_all add: stored_def fd_Write_def path_hook_fields plain_formatter_def
        note_a_def hello_def shared_log_fields)
  show ?thesis
    by (simp add: Fire_shared_log_1 Fire_shared_log_2 Fire_shared_log_3 h0 h2 f lv st
        stored_fls reopens_def path_hook_fields)
qed

text \<open>
  C5, as the code has it. On a file that already holds 3 bytes, after one write of 5
  bytes the tracked length is 8, not the 5 bytes written.
\<close>

theorem tracked_length_not_bytes_written:
  "map_option (\<lambda>(r, h, s). map_option ln (fls h InfoLevel)) (Fire path_hook hello small_log)
     = Some (Some 8)
   \<and> fst (fd_Write small_log 0 (Message hello)) = 5"
proof -
  have "fst (fd_Write small_log 0 (Message hello)) = 5"
    by (simp add: fd_Write_def hello_def small_log_def empty_world_def)
  then show ?thesis
    by (simp add: Fire_small_log)
qed

text \<open>
  C5, amended. After any sequence of calls of \<open>Fire\<close> in file mode that return, with
  entries of any levels, the tracked length of the handle of a level is the length found at
  its last ensure-open plus the numbers of bytes stored since then by the writes of that
  level (what \<open>Write\<close> returned, at most the length of the message); before the first
  ensure-open of the sequence it is the tracked length the handle had. The bytes that the
  handles of other levels append to the same file are not part of it. The length found at
  an ensure-open is the size of the file when a closed handle is opened within the limit,
  and 0 after a roll-over.
\<close>

theorem tracked_length_since_open:
  assumes "\<not> sinkMode hook" and "registry_ok hook" and "handleOf hook l = Some fe"
    and "Fire_all hook es s = Some (hook', s')"
  shows "(\<exists>fe'. handleOf hook' l = Some fe' \<and>
            ln fe' = fst (since_open l hook es s (ln fe, 0))
                       + int (snd (since_open l hook es s (ln fe, 0)))) \<and>
         (fd fe = None \<and> \<not> deny_open s (path fe) \<and> startLen s (path fe) \<le> FdMaxSize hook \<longrightarrow>
            foundLen hook fe s = startLen s (path fe)) \<and>
         (FdMaxSize hook < checkLen fe s \<and> \<not> deny_rename s (path fe) \<and>
          \<not> deny_open s (path fe) \<and> 0 \<le> FdMaxSize hook \<longrightarrow>
            foundLen hook fe s = 0) \<and>
         (\<forall>e r. stored hook e s r
                  \<le> (case Format (formatter hook) e of Inl err \<Rightarrow> 0 | Inr msg \<Rightarrow> length msg))"
proof (intro conjI impI allI)
  show "\<exists>fe'. handleOf hook' l = Some fe' \<and>
            ln fe' = fst (since_open l hook es s (ln fe, 0))
                       + int (snd (since_open l hook es s (ln fe, 0)))"
    using assms by (intro since_open_invariant) simp_all
next
  assume "fd fe = None \<and> \<not> deny_open s (path fe) \<and> startLen s (path fe) \<le> FdMaxSize hook"
  then show "foundLen hook fe s = startLen s (path fe)"
    by (simp add: foundLen_opened)
next
  assume "FdMaxSize hook < checkLen fe s \<and> \<not> deny_rename s (path fe) \<and>
          \<not> deny_open s (path fe) \<and> 0 \<le> FdMaxSize hook"
  then show "foundLen hook fe s = 0"
    by (simp add: foundLen_rotated)
next
  fix e r
  show "stored hook e s r
      \<le> (case Format (formatter hook) e of Inl err \<Rightarrow> 0 | Inr msg \<Rightarrow> length msg)"
    by (rule stored_count)
qed

theorem tracked_length_since_open_witness:
  "Fire_all path_hook [note_a, error_b, hello] shared_log
     = Some (path_hook\<lparr>fls := [ErrorLevel \<mapsto> \<lparr>fd = Some 0, path = ''app.log'', ln = 5\<rparr>,
                               InfoLevel \<mapsto> \<lparr>fd = Some 0, path = ''app.log'', ln = 6\<rparr>]\<rparr>,
         shared_log\<lparr>data := (\<lambda>_. [])(0 := ''abcabhe''), free := Some 0\<rparr>)
   \<and> since_open InfoLevel path_hook [note_a, error_b, hello] shared_log (0, 0) = (3, 3)
   \<and> (\<exists>fe'. handleOf (path_hook\<lparr>fls := [ErrorLevel \<mapsto> \<lparr>fd = Some 0, path = ''app.log'', ln = 5\<rparr>,
                               InfoLevel \<mapsto> \<lparr>fd = Some 0, path = ''app.log'', ln = 6\<rparr>]\<rparr>)
                InfoLevel = Some fe' \<and> ln fe' = 3 + 3)
   \<and> foundLen path_hook \<lparr>fd = None, path = ''app.log'', ln = 0\<rparr> shared_log = 3
   \<and> foundLen path_hook \<lparr>fd = None, path = ''app.log'', ln = 0\<rparr> big_log = 0
   \<and> stored path_hook hello (shared_log\<lparr>data := (\<lambda>_. [])(0 := ''abcab''), free := Some 2\<rparr>)
        (Return None) = 2"
proof -
  let ?fe = "\<lparr>fd = None, path = ''app.log'', ln = 0\<rparr>"
  have h0: "handleOf path_hook InfoLevel = Some ?fe"
    by (simp add: handleOf_def resolvePath_def map_get_def path_hook_fields)
  have reg: "registry_ok path_hook"
    by (simp add: registry_ok_def path_hook_fields)
  have fm: "\<not> sinkMode path_hook"
    by (simp add: sinkMode_def path_hook_fields)
  note t = tracked_length_since_open [OF fm reg h0 Fire_all_shared_log]
  have opened: "fd ?fe = None \<and> \<not> deny_open shared_log (path ?fe) \<and>
      startLen shared_log (path ?fe) \<le> FdMaxSize path_hook"
    by (simp add: startLen_def os_Stat_def shared_log_fields path_hook_fields)
  have a: "\<exists>fe'. handleOf (path_hook\<lparr>fls := [ErrorLevel \<mapsto> \<lparr>fd = Some 0, path = ''app.log'', ln = 5\<rparr>,
                               InfoLevel \<mapsto> \<lparr>fd = Some 0, path = ''app.log'', ln = 6\<rparr>]\<rparr>)
                InfoLevel = Some fe' \<and> ln fe' = 3 + 3"
    using t since_open_shared_log by simp
  from t opened have "foundLen path_hook ?fe shared_log = startLen shared_log (path ?fe)"
    by blast
  then have b: "foundLen path_hook ?fe shared_log = 3"
    by (simp add: startLen_def os_Stat_def shared_log_fields)
  have reg5: "Fire_all path_hook [] big_log = Some (path_hook, big_log)" by simp
  have over: "FdMaxSize path_hook < checkLen ?fe big_log \<and> \<not> deny_rename big_log (path ?fe) \<and>
      \<not> deny_open big_log (path ?fe) \<and> 0 \<le> FdMaxSize path_hook"
    by (simp add: checkLen_def startLen_def os_Stat_def world_fields path_hook_fields)
  from tracked_length_since_open [OF fm reg h0 reg5] over
  have c: "foundLen path_hook ?fe big_log = 0"
    by blast
  have d: "stored path_hook hello (shared_log\<lparr>data := (\<lambda>_. [])(0 := ''abcab''), free := Some 2\<rparr>)
        (Return None) = 2"
    by (simp add: stored_def fd_Write_def path_hook_fields plain_formatter_def hello_def)
  from Fire_all_shared_log since_open_shared_log a b c d show ?thesis
    by blast
qed

subsection \<open>The strategy of a call, and where the record goes\<close>

lemma resolveWriter_sinkMode:
  assumes "resolveWriter hook l = Some w"
  shows "sinkMode hook"
proof (cases "writers hook")
  case None
  with assms show ?thesis
    by (simp add: resolveWriter_def sinkMode_def map_get_def split: if_splits)
next
  case (Some m)
  then show ?thesis by (simp add: sinkMode_def)
qed

lemma Fire_to_sink:
  assumes "resolveWriter hook (Level e) = Some (Some w)"
    and "Format (formatter hook) e = Inr msg" and "\<not> sink_fail s w"
  shows "Fire hook e s
     = Some (Return None, hook, s\<lparr>sinks := (sinks s)(w := sinks s w @ msg)\<rparr>)"
proof (cases "map_get (writers hook) (Level e)")
  case None
  with assms show ?thesis
    by (simp add: resolveWriter_def Fire_def ioWrite_def writer_Write_def split: if_splits)
next
  case (Some x)
  then have "writers hook \<noteq> None"
    by (auto simp: map_get_def split: option.splits)
  with Some assms show ?thesis
    by (simp add: resolveWriter_def Fire_def ioWrite_def writer_Write_def)
qed

lemma Fire_to_file:
  assumes "\<not> sinkMode hook" and "registry_ok hook" and "handleOf hook (Level e) = Some fe"
    and "Format (formatter hook) e = Inr msg"
    and "openedOn fe s i s1" and "checkLen fe s \<le> FdMaxSize hook"
  shows "\<exists>hook' s'. Fire hook e s = Some (Return None, hook', s') \<and>
           map_option fd (fls hook' (Level e)) = Some (Some i) \<and>
           data s' i = data s1 i @ take (fst (fd_Write s1 i msg)) msg \<and>
           (free s = None \<longrightarrow> data s' i = data s1 i @ msg) \<and>
           (\<forall>j. j \<noteq> i \<longrightarrow> data s' j = data s1 j) \<and> names s' = names s1"
proof -
  have "free s1 = free s" by (rule openedOn_frame [OF assms(5)])
  with Fire_within_limit [OF assms] show ?thesis
    by (simp add: fd_Write_def Let_def)
qed

text \<open>
  C7, as the code has it. A hook that has writers set and a path set is reachable
  (\<open>both_hook\<close>); \<open>Fire\<close> sends its records to the sink, and setting a default path
  on it leaves it writing to sinks.
\<close>

theorem both_modes_configured:
  "sinkMode both_hook \<and> pathConfigured both_hook
   \<and> Fire both_hook hello empty_world
       = Some (Return None, both_hook, empty_world\<lparr>sinks := (\<lambda>_. [])(7 := ''hello'')\<rparr>)
   \<and> sinkMode (SetDefaultPath both_hook ''other.log'')"
  by (simp add: both_hook_def SetDefaultWriter_def SetDefaultPath_def sinkMode_def pathConfigured_def
      path_hook_fields Fire_def ioWrite_def map_get_def plain_formatter_def hello_def
      writer_Write_def empty_world_def fun_eq_iff)

text \<open>
  C7, amended. Each call of \<open>Fire\<close> uses one strategy, chosen by the configuration in
  a fixed order. With a writer map or a default writer set the record goes to the sinks: the
  hook (its registry of handles included) and every file are unchanged, and when the level
  has a writer that does not fail, the formatted record is appended to that sink and
  \<open>Fire\<close> returns \<open>nil\<close>, whether or not a path is set too. Otherwise the record
  goes to the files: no sink is written, and when the handle of the level is open or can be
  opened within the limit, the bytes that fit of the formatted record (all of them on a
  device with room) are appended to the file of the handle and to no other. The constructor
  sets the configuration of one mode only; \<open>SetDefaultWriter\<close> makes any hook write to
  sinks, and \<open>SetDefaultPath\<close> leaves a hook that writes to sinks so.
\<close>

theorem Fire_one_strategy:
  "(sinkMode hook \<longrightarrow>
      (\<exists>r s'. Fire hook e s = Some (r, hook, s') \<and>
         names s' = names s \<and> data s' = data s \<and> fresh s' = fresh s)) \<and>
   (\<forall>w msg. resolveWriter hook (Level e) = Some (Some w) \<and>
        Format (formatter hook) e = Inr msg \<and> \<not> sink_fail s w \<longrightarrow>
      sinkMode hook \<and>
      Fire hook e s = Some (Return None, hook, s\<lparr>sinks := (sinks s)(w := sinks s w @ msg)\<rparr>)) \<and>
   (\<not> sinkMode hook \<longrightarrow>
      (\<forall>r hook' s'. Fire hook e s = Some (r, hook', s') \<longrightarrow>
         sinks s' = sinks s \<and> \<not> sinkMode hook')) \<and>
   (\<forall>fe msg i s1. \<not> sinkMode hook \<and> registry_ok hook \<and> handleOf hook (Level e) = Some fe \<and>
        Format (formatter hook) e = Inr msg \<and> openedOn fe s i s1 \<and>
        checkLen fe s \<le> FdMaxSize hook \<longrightarrow>
      (\<exists>hook' s'. Fire hook e s = Some (Return None, hook', s') \<and>
           map_option fd (fls hook' (Level e)) = Some (Some i) \<and>
           data s' i = data s1 i @ take (fst (fd_Write s1 i msg)) msg \<and>
           (free s = None \<longrightarrow> data s' i = data s1 i @ msg) \<and>
           (\<forall>j. j \<noteq> i \<longrightarrow> data s' j = data s1 j) \<and> names s' = names s1)) \<and>
   (\<forall>df out fm maxsz h. NewLfsHook df out fm maxsz = Return h \<longrightarrow>
      \<not> (sinkMode h \<and> pathConfigured h)) \<and>
   sinkMode (SetDefaultWriter hook w0) \<and>
   (sinkMode hook \<longrightarrow> sinkMode (SetDefaultPath hook p))"
proof -
  have to_sinks: "\<exists>r s'. Fire hook e s = Some (r, hook, s') \<and>
         names s' = names s \<and> data s' = data s \<and> fresh s' = fresh s" if "sinkMode hook"
    using that ioWrite_files [of hook e s]
    by (cases "ioWrite hook e s") (auto simp: Fire_def sinkMode_def)
  have sink_written: "sinkMode hook \<and>
      Fire hook e s = Some (Return None, hook, s\<lparr>sinks := (sinks s)(w := sinks s w @ msg)\<rparr>)"
    if "resolveWriter hook (Level e) = Some (Some w) \<and>
        Format (formatter hook) e = Inr msg \<and> \<not> sink_fail s w" for w msg
  proof
    from that show "sinkMode hook"
      by (intro resolveWriter_sinkMode [of hook "Level e" "Some w"]) simp
    from that show "Fire hook e s
        = Some (Return None, hook, s\<lparr>sinks := (sinks s)(w := sinks s w @ msg)\<rparr>)"
      by (intro Fire_to_sink) simp_all
  qed
  have to_files: "sinks s' = sinks s \<and> \<not> sinkMode hook'"
    if fmode: "\<not> sinkMode hook" and fire: "Fire hook e s = Some (r, hook', s')" for r hook' s'
  proof (cases "pathConfigured hook")
    case True
    with fmode fire have fw: "fileWrite hook e s = Some (r, hook', s')"
      by (simp add: Fire_def sinkMode_def pathConfigured_def)
    have "writers (hook'\<lparr>fls := fls hook\<rparr>) = writers hook
        \<and> hasDefaultWriter (hook'\<lparr>fls := fls hook\<rparr>) = hasDefaultWriter hook"
      using fileWrite_rest [OF fw] by simp
    then have "writers hook' = writers hook \<and> hasDefaultWriter hook' = hasDefaultWriter hook"
      by simp
    with fmode fileWrite_sinks [OF fw] show ?thesis
      by (simp add: sinkMode_def)
  next
    case False
    with fmode fire show ?thesis
      by (auto simp: Fire_def sinkMode_def pathConfigured_def)
  qed
  have file_written: "\<exists>hook' s'. Fire hook e s = Some (Return None, hook', s') \<and>
           map_option fd (fls hook' (Level e)) = Some (Some i) \<and>
           data s' i = data s1 i @ take (fst (fd_Write s1 i msg)) msg \<and>
           (free s = None \<longrightarrow> data s' i = data s1 i @ msg) \<and>
           (\<forall>j. j \<noteq> i \<longrightarrow> data s' j = data s1 j) \<and> names s' = names s1"
    if "\<not> sinkMode hook \<and> registry_ok hook \<and> handleOf hook (Level e) = Some fe \<and>
        Format (formatter hook) e = Inr msg \<and> openedOn fe s i s1 \<and>
        checkLen fe s \<le> FdMaxSize hook" for fe msg i s1
  proof -
    from that have a: "\<not> sinkMode hook" "registry_ok hook" "handleOf hook (Level e) = Some fe"
      "Format (formatter hook) e = Inr msg" "openedOn fe s i s1"
      "checkLen fe s \<le> FdMaxSize hook"
      by simp_all
    show ?thesis by (rule Fire_to_file [OF a])
  qed
  have setw: "sinkMode (SetDefaultWriter hook w0)"
    by (simp add: sinkMode_def SetDefaultWriter_def)
  have setp: "sinkMode (SetDefaultPath hook p)" if "sinkMode hook"
    using that by (simp add: sinkMode_def SetDefaultPath_def)
  have one_mode: "\<not> (sinkMode h \<and> pathConfigured h)"
    if "NewLfsHook df out fm maxsz = Return h" for df out fm maxsz h
    using that by (rule NewLfsHook_one_mode)
  from to_sinks have c1: "sinkMode hook \<longrightarrow>
      (\<exists>r s'. Fire hook e s = Some (r, hook, s') \<and>
         names s' = names s \<and> data s' = data s \<and> fresh s' = fresh s)"
    by (rule impI)
  from sink_written have c2: "\<forall>w msg. resolveWriter hook (Level e) = Some (Some w) \<and>
        Format (formatter hook) e = Inr msg \<and> \<not> sink_fail s w \<longrightarrow>
      sinkMode hook \<and>
      Fire hook e s = Some (Return None, hook, s\<lparr>sinks := (sinks s)(w := sinks s w @ msg)\<rparr>)"
    by (intro allI impI)
  from to_files have c3: "\<not> sinkMode hook \<longrightarrow>
      (\<forall>r hook' s'. Fire hook e s = Some (r, hook', s') \<longrightarrow>
         sinks s' = sinks s \<and> \<not> sinkMode hook')"
    by (intro allI impI)
  from file_written
  have c4: "\<forall>fe msg i s1. \<not> sinkMode hook \<and> registry_ok hook \<and> handleOf hook (Level e) = Some fe \<and>
        Format (formatter hook) e = Inr msg \<and> openedOn fe s i s1 \<and>
        checkLen fe s \<le> FdMaxSize hook \<longrightarrow>
      (\<exists>hook' s'. Fire hook e s = Some (Return None, hook', s') \<and>
           map_option fd (fls hook' (Level e)) = Some (Some i) \<and>
           data s' i = data s1 i @ take (fst (fd_Write s1 i msg)) msg \<and>
           (free s = None \<longrightarrow> data s' i = data s1 i @ msg) \<and>
           (\<forall>j. j \<noteq> i \<longrightarrow> data s' j = data s1 j) \<and> names s' = names s1)"
    by (intro allI impI)
  from one_mode have c5: "\<forall>df out fm maxsz h. NewLfsHook df out fm maxsz = Return h \<longrightarrow>
      \<not> (sinkMode h \<and> pathConfigured h)"
    by (intro allI impI)
  from setp have c7: "sinkMode hook \<longrightarrow> sinkMode (SetDefaultPath hook p)"
    by (rule impI)
  from c1 c2 c3 c4 c5 setw c7 show ?thesis
    by (intro conjI)
qed

theorem Fire_one_strategy_witness:
  "sinkMode both_hook \<and> pathConfigured both_hook
   \<and> Fire both_hook hello small_log
       = Some (Return None, both_hook, small_log\<lparr>sinks := (\<lambda>_. [])(7 := ''hello'')\<rparr>)
   \<and> (\<exists>hook' s'. Fire path_hook hello small_log = Some (Return None, hook', s') \<and>
         map_option fd (fls hook' InfoLevel) = Some (Some 0) \<and>
         data s' 0 = ''abchello'' \<and> sinks s' = sinks small_log \<and> \<not> sinkMode hook')
   \<and> \<not> (sinkMode path_hook \<and> pathConfigured path_hook)
   \<and> sinkMode (SetDefaultWriter path_hook (Some 7))
   \<and> sinkMode (SetDefaultPath both_hook ''other.log'')"
proof -
  let ?fe = "\<lparr>fd = None, path = ''app.log'', ln = 0\<rparr>"
  have sm: "sinkMode both_hook" and pc: "pathConfigured both_hook"
    and fm: "\<not> sinkMode path_hook"
    by (simp_all add: both_hook_def SetDefaultWriter_def sinkMode_def pathConfigured_def
        path_hook_fields)
  have rw: "resolveWriter both_hook (Level hello) = Some (Some 7) \<and>
      Format (formatter both_hook) hello = Inr ''hello'' \<and> \<not> sink_fail small_log 7"
    by (simp add: resolveWriter_def both_hook_def SetDefaultWriter_def map_get_def
        path_hook_fields plain_formatter_def hello_def small_log_def empty_world_def)
  note tb = Fire_one_strategy [of both_hook hello small_log "Some 7" "''other.log''"]
  note tp = Fire_one_strategy [of path_hook hello small_log "Some 7" "''other.log''"]
  note tb_sink = tb [THEN conjunct2, THEN conjunct1, rule_format]
  note tb_setp = tb [THEN conjunct2, THEN conjunct2, THEN conjunct2, THEN conjunct2,
      THEN conjunct2, THEN conjunct2, rule_format]
  note tp_frame = tp [THEN conjunct2, THEN conjunct2, THEN conjunct1, rule_format]
  note tp_file = tp [THEN conjunct2, THEN conjunct2, THEN conjunct2, THEN conjunct1, rule_format]
  note tp_new = tp [THEN conjunct2, THEN conjunct2, THEN conjunct2, THEN conjunct2,
      THEN conjunct1, rule_format]
  note tp_setw = tp [THEN conjunct2, THEN conjunct2, THEN conjunct2, THEN conjunct2,
      THEN conjunct2, THEN conjunct1]
  from tb_sink [OF rw] have "Fire both_hook hello small_log
      = Some (Return None, both_hook,
          small_log\<lparr>sinks := (sinks small_log)(7 := sinks small_log 7 @ ''hello'')\<rparr>)"
    by (rule conjunct2)
  moreover have "sinks small_log = (\<lambda>_. [])"
    by (simp add: small_log_def empty_world_def)
  ultimately have a: "Fire both_hook hello small_log
       = Some (Return None, both_hook, small_log\<lparr>sinks := (\<lambda>_. [])(7 := ''hello'')\<rparr>)"
    by simp
  from tb_setp [OF sm] have b: "sinkMode (SetDefaultPath both_hook ''other.log'')" .
  have fw: "\<not> sinkMode path_hook \<and> registry_ok path_hook \<and>
      handleOf path_hook (Level hello) = Some ?fe \<and>
      Format (formatter path_hook) hello = Inr ''hello'' \<and> openedOn ?fe small_log 0 small_log \<and>
      checkLen ?fe small_log \<le> FdMaxSize path_hook"
    using fm path_hook_handle hello_formatted
    by (simp add: registry_ok_def path_hook_fields openedOn_def os_OpenFile_def checkLen_def
        startLen_def os_Stat_def world_fields)
  from tp_file [OF fw]
  have c: "\<exists>hook' s'. Fire path_hook hello small_log = Some (Return None, hook', s') \<and>
         map_option fd (fls hook' InfoLevel) = Some (Some 0) \<and>
         data s' 0 = ''abchello'' \<and> sinks s' = sinks small_log \<and> \<not> sinkMode hook'"
  proof (elim exE conjE)
    fix hook' s'
    assume f: "Fire path_hook hello small_log = Some (Return None, hook', s')"
      and h: "map_option fd (fls hook' (Level hello)) = Some (Some 0)"
      and d: "free small_log = None \<longrightarrow> data s' 0 = data small_log 0 @ ''hello''"
    from tp_frame [OF fm f] have fr: "sinks s' = sinks small_log \<and> \<not> sinkMode hook'" .
    from d have d': "data s' 0 = ''abchello''"
      by (simp add: world_fields free_fields)
    from h have h': "map_option fd (fls hook' InfoLevel) = Some (Some 0)"
      by (simp add: hello_def)
    from fr have fr1: "sinks s' = sinks small_log" and fr2: "\<not> sinkMode hook'"
      by simp_all
    show ?thesis
      by (intro exI [of _ hook'] exI [of _ s'] conjI) (rule f h' d' fr1 fr2)+
  qed
  from tp_new [OF path_hook_constructed]
  have e: "\<not> (sinkMode path_hook \<and> pathConfigured path_hook)" .
  note g = tp_setw
  show ?thesis
    apply (intro conjI)
          apply (rule sm)
         apply (rule pc)
        apply (rule a)
       apply (rule c)
      apply (rule e)
     apply (rule g)
    apply (rule b)
    done
qed

end
